theory Spec2Isabelle
  imports Main "HOL-Library.Sublist"
begin

section \<open>Rasters\<close>

text \<open>
  The program \<^verbatim>\<open>generate_icons.py\<close> derives Android launcher icons from one picture
  with the Pillow imaging library. An image object is a raster: its size and one pixel
  value per position. Position \<open>(x, y)\<close> is column \<open>x\<close>, row \<open>y\<close>; only the positions
  with \<open>0 \<le> x < width\<close> and \<open>0 \<le> y < height\<close> belong to the image. Mode \<^verbatim>\<open>RGBA\<close>
  has four bands per pixel, mode \<^verbatim>\<open>L\<close> one.
\<close>

type_synonym rgba = "int \<times> int \<times> int \<times> int"

type_synonym box = "int \<times> int \<times> int \<times> int"

record 'p image =
  width :: int
  height :: int
  pix :: "int \<Rightarrow> int \<Rightarrow> 'p"


definition inside :: "'p image \<Rightarrow> int \<Rightarrow> int \<Rightarrow> bool" where
  "inside img x y \<longleftrightarrow> 0 \<le> x \<and> x < width img \<and> 0 \<le> y \<and> y < height img"

datatype error =
  ValueError
  | FileNotFoundError
  | FileExistsError
  | NotADirectoryError
  | IsADirectoryError
  | PermissionError
  | UnidentifiedImageError

section \<open>The imaging library's primitives\<close>

text \<open>
  Pillow is not part of the repository. Its calls are modelled by what its reference
  documents; the three numeric kernels the documentation leaves open are parameters of
  the whole development, so every theorem holds for each way the library may compute
  them:
  \<^item> \<open>lanczos img (w, h) x y\<close>: the pixel at \<open>(x, y)\<close> of \<open>img\<close> resampled to
    \<open>w \<times> h\<close> with the Lanczos filter;
  \<^item> \<open>ellipse_fill (x0, y0, x1, y1) x y\<close>: whether \<^verbatim>\<open>ImageDraw.ellipse\<close> paints the
    pixel \<open>(x, y)\<close> for that bounding box (it paints a pixel with the fill value or
    leaves it alone: the drawing is not anti-aliased);
  \<^item> \<open>mix m d s\<close>: the pixel \<^verbatim>\<open>paste\<close> computes from the destination pixel \<open>d\<close> and
    the source pixel \<open>s\<close> under a mask value \<open>m\<close> strictly between 0 and 255.
\<close>

record imaging =
  lanczos :: "rgba image \<Rightarrow> int \<times> int \<Rightarrow> int \<Rightarrow> int \<Rightarrow> rgba"
  ellipse_fill :: "box \<Rightarrow> int \<Rightarrow> int \<Rightarrow> bool"
  mix :: "int \<Rightarrow> rgba \<Rightarrow> rgba \<Rightarrow> rgba"

text \<open>
  \<^verbatim>\<open>Image.crop((left, upper, right, lower))\<close>: the region as a new image; a box that
  ends before it starts is a \<^verbatim>\<open>ValueError\<close>; what the box covers beyond the image is
  filled with zeros.
\<close>

definition crop :: "rgba image \<Rightarrow> box \<Rightarrow> error + rgba image" where
  "crop img b =
     (case b of (left, upper, right, lower) \<Rightarrow>
        if right < left \<or> lower < upper then Inl ValueError
        else Inr \<lparr>width = right - left, height = lower - upper,
                  pix = (\<lambda>x y. if inside img (x + left) (y + upper)
                                then pix img (x + left) (y + upper) else (0, 0, 0, 0))\<rparr>)"

text \<open>
  \<^verbatim>\<open>Image.resize(size, Image.LANCZOS)\<close>: an image that already has the requested size
  is returned as a copy; a requested side below 1 is a \<^verbatim>\<open>ValueError\<close>; otherwise the
  result has the requested size and the resampled pixels.
\<close>

definition resize :: "imaging \<Rightarrow> rgba image \<Rightarrow> int \<times> int \<Rightarrow> error + rgba image" where
  "resize L img sz =
     (if (width img, height img) = sz then Inr img
      else if fst sz < 1 \<or> snd sz < 1 then Inl ValueError
      else Inr \<lparr>width = fst sz, height = snd sz, pix = lanczos L img sz\<rparr>)"

text \<open>\<^verbatim>\<open>Image.new(mode, size, color)\<close>: every pixel has the colour; a negative side is a
  \<^verbatim>\<open>ValueError\<close>.\<close>

definition new_image :: "int \<times> int \<Rightarrow> 'p \<Rightarrow> error + 'p image" where
  "new_image sz c =
     (if fst sz < 0 \<or> snd sz < 0 then Inl ValueError
      else Inr \<lparr>width = fst sz, height = snd sz, pix = (\<lambda>x y. c)\<rparr>)"

text \<open>\<^verbatim>\<open>ImageDraw.Draw(mask).ellipse(box, fill=v)\<close>: the painted pixels take the fill
  value, the others keep theirs.\<close>

definition ellipse :: "imaging \<Rightarrow> int image \<Rightarrow> box \<Rightarrow> int \<Rightarrow> int image" where
  "ellipse L m b v = m\<lparr>pix := (\<lambda>x y. if ellipse_fill L b x y then v else pix m x y)\<rparr>"

text \<open>
  \<^verbatim>\<open>dst.paste(src, (left, upper), mask)\<close>: the mask must have the size of the pasted
  image (\<^verbatim>\<open>ValueError\<close> otherwise). Over the pasted region, where the mask is 255 the
  source pixel is copied as it is, where the mask is 0 the destination pixel is kept,
  and values between mix the two.
\<close>

definition blend :: "imaging \<Rightarrow> int \<Rightarrow> rgba \<Rightarrow> rgba \<Rightarrow> rgba" where
  "blend L m d s = (if m = 255 then s else if m = 0 then d else mix L m d s)"

definition paste :: "imaging \<Rightarrow> rgba image \<Rightarrow> rgba image \<Rightarrow> int \<times> int \<Rightarrow> int image
    \<Rightarrow> error + rgba image" where
  "paste L dst src pos msk =
     (if (width msk, height msk) \<noteq> (width src, height src) then Inl ValueError
      else Inr (dst\<lparr>pix := (\<lambda>x y.
             if inside src (x - fst pos) (y - snd pos)
             then blend L (pix msk (x - fst pos) (y - snd pos)) (pix dst x y)
                    (pix src (x - fst pos) (y - snd pos))
             else pix dst x y)\<rparr>))"

section \<open>The process and the file system\<close>

text \<open>
  Image objects live in the interpreter's heap and are named by references (indices into
  the heap, one heap per mode), so that creating an object and changing one in place are
  different things. The file system maps a path to a file; a file holds a picture (what
  decoding it and converting to \<^verbatim>\<open>RGBA\<close> gives) or other data. \<open>denied\<close> are the paths
  the process may not read, create, write or remove. \<open>stdout\<close> collects the printed
  lines.
\<close>

datatype file_data = Picture "rgba image" | Other string

record world =
  images :: "rgba image list"
  masks :: "int image list"
  files :: "string \<rightharpoonup> file_data"
  dirs :: "string set"
  denied :: "string set"
  stdout :: "string list"

type_synonym 'a run = "world \<Rightarrow> (error + 'a) \<times> world"

text \<open>Sequencing: an exception ends the run where it is raised, with the world as it is.\<close>

definition and_then :: "'a run \<Rightarrow> ('a \<Rightarrow> 'b run) \<Rightarrow> 'b run" where
  "and_then m f w = (case m w of (Inl e, w') \<Rightarrow> (Inl e, w') | (Inr a, w') \<Rightarrow> f a w')"

definition ret :: "'a \<Rightarrow> 'a run" where
  "ret a w = (Inr a, w)"

fun for_each :: "('a \<Rightarrow> unit run) \<Rightarrow> 'a list \<Rightarrow> unit run" where
  "for_each f [] = ret ()"
| "for_each f (x # xs) = and_then (f x) (\<lambda>_. for_each f xs)"

subsection \<open>Image objects\<close>

definition store :: "error + rgba image \<Rightarrow> nat run" where
  "store r w =
     (case r of Inl e \<Rightarrow> (Inl e, w)
      | Inr im \<Rightarrow> (Inr (length (images w)), w\<lparr>images := images w @ [im]\<rparr>))"

definition store_mask :: "error + int image \<Rightarrow> nat run" where
  "store_mask r w =
     (case r of Inl e \<Rightarrow> (Inl e, w)
      | Inr m \<Rightarrow> (Inr (length (masks w)), w\<lparr>masks := masks w @ [m]\<rparr>))"

definition img_size :: "nat \<Rightarrow> (int \<times> int) run" where
  "img_size r w = (Inr (width (images w ! r), height (images w ! r)), w)"

definition img_crop :: "nat \<Rightarrow> box \<Rightarrow> nat run" where
  "img_crop r b w = store (crop (images w ! r) b) w"

definition img_resize :: "imaging \<Rightarrow> nat \<Rightarrow> int \<times> int \<Rightarrow> nat run" where
  "img_resize L r sz w = store (resize L (images w ! r) sz) w"

definition img_copy :: "nat \<Rightarrow> nat run" where
  "img_copy r w = store (Inr (images w ! r)) w"

definition img_new :: "int \<times> int \<Rightarrow> rgba \<Rightarrow> nat run" where
  "img_new sz c w = store (new_image sz c) w"

definition mask_new :: "int \<times> int \<Rightarrow> int \<Rightarrow> nat run" where
  "mask_new sz c w = store_mask (new_image sz c) w"

definition draw_ellipse :: "imaging \<Rightarrow> nat \<Rightarrow> box \<Rightarrow> int \<Rightarrow> unit run" where
  "draw_ellipse L m b v w = (Inr (), w\<lparr>masks := (masks w)[m := ellipse L (masks w ! m) b v]\<rparr>)"

definition img_paste :: "imaging \<Rightarrow> nat \<Rightarrow> nat \<Rightarrow> int \<times> int \<Rightarrow> nat \<Rightarrow> unit run" where
  "img_paste L dst src pos m w =
     (case paste L (images w ! dst) (images w ! src) pos (masks w ! m) of
        Inl e \<Rightarrow> (Inl e, w)
      | Inr im \<Rightarrow> (Inr (), w\<lparr>images := (images w)[dst := im]\<rparr>))"

subsection \<open>Paths\<close>

text \<open>\<^verbatim>\<open>os.path.join(a, b)\<close> and \<^verbatim>\<open>os.path.dirname(p)\<close> of \<^verbatim>\<open>posixpath\<close>.\<close>

definition join :: "string \<Rightarrow> string \<Rightarrow> string" where
  "join a b =
     (if b \<noteq> [] \<and> hd b = CHR ''/'' then b
      else if a = [] \<or> last a = CHR ''/'' then a @ b
      else a @ ''/'' @ b)"

definition rstrip_slash :: "string \<Rightarrow> string" where
  "rstrip_slash s = rev (dropWhile (\<lambda>c. c = CHR ''/'') (rev s))"

definition dirname :: "string \<Rightarrow> string" where
  "dirname p =
     (let head = rev (dropWhile (\<lambda>c. c \<noteq> CHR ''/'') (rev p))
      in if head \<noteq> [] \<and> (\<exists>c \<in> set head. c \<noteq> CHR ''/'') then rstrip_slash head else head)"

text \<open>The directories above a path, outermost first: the prefixes that end before a
  separator.\<close>

definition ancestors :: "string \<Rightarrow> string list" where
  "ancestors p =
     map (\<lambda>i. take i p)
       (filter (\<lambda>i. p ! i = CHR ''/'' \<and> p ! (i - 1) \<noteq> CHR ''/'') [1..<length p])"

subsection \<open>Operating system calls\<close>

definition print :: "string \<Rightarrow> unit run" where
  "print s w = (Inr (), w\<lparr>stdout := stdout w @ [s]\<rparr>)"

text \<open>\<^verbatim>\<open>Image.open(path).convert("RGBA")\<close>.\<close>

definition image_open :: "string \<Rightarrow> nat run" where
  "image_open p w =
     (if p \<in> dirs w then (Inl IsADirectoryError, w)
      else case files w p of
        None \<Rightarrow> (Inl FileNotFoundError, w)
      | Some f \<Rightarrow>
          if p \<in> denied w then (Inl PermissionError, w)
          else (case f of
                  Other s \<Rightarrow> (Inl UnidentifiedImageError, w)
                | Picture im \<Rightarrow> store (Inr im) w))"

text \<open>
  \<^verbatim>\<open>os.makedirs(d, exist_ok=True)\<close> makes the missing directories on the way down to
  \<open>d\<close>, one after the other, and stops at the first that it cannot make.
\<close>

fun mkdirs :: "string list \<Rightarrow> unit run" where
  "mkdirs [] w = (Inr (), w)"
| "mkdirs (p # ps) w =
     (if p \<in> dirs w then mkdirs ps w
      else if p \<in> dom (files w)
        then (Inl (if ps = [] then FileExistsError else NotADirectoryError), w)
      else if p \<in> denied w then (Inl PermissionError, w)
      else mkdirs ps (w\<lparr>dirs := insert p (dirs w)\<rparr>))"

definition makedirs :: "string \<Rightarrow> unit run" where
  "makedirs d = mkdirs (ancestors d @ [d])"

text \<open>\<^verbatim>\<open>img.save(path, "PNG")\<close> creates or overwrites the file.\<close>

definition img_save :: "nat \<Rightarrow> string \<Rightarrow> unit run" where
  "img_save r p w =
     (if p \<in> dirs w then (Inl IsADirectoryError, w)
      else if dirname p \<notin> dirs w then (Inl FileNotFoundError, w)
      else if p \<in> denied w then (Inl PermissionError, w)
      else (Inr (), w\<lparr>files := (files w)(p \<mapsto> Picture (images w ! r))\<rparr>))"

definition path_exists :: "string \<Rightarrow> bool run" where
  "path_exists p w = (Inr (p \<in> dom (files w) \<or> p \<in> dirs w), w)"

definition os_remove :: "string \<Rightarrow> unit run" where
  "os_remove p w =
     (if p \<in> dirs w then (Inl IsADirectoryError, w)
      else if p \<notin> dom (files w) then (Inl FileNotFoundError, w)
      else if p \<in> denied w then (Inl PermissionError, w)
      else (Inr (), w\<lparr>files := (files w)(p := None)\<rparr>))"

subsection \<open>The home directory\<close>

text \<open>
  \<^verbatim>\<open>os.path.expanduser\<close> replaces a leading \<^verbatim>\<open>~\<close> by the value of the environment
  variable \<^verbatim>\<open>HOME\<close> when it is set, and by the home directory of the password database
  otherwise (\<^verbatim>\<open>~name\<close> by that user's). Without a home directory the path is returned
  unchanged.
\<close>

record process =
  environ :: "string \<rightharpoonup> string"
  pw_uid_dir :: "string option"
  pw_nam_dir :: "string \<rightharpoonup> string"

definition expanduser :: "process \<Rightarrow> string \<Rightarrow> string" where
  "expanduser P path =
     (if path = [] \<or> hd path \<noteq> CHR ''~'' then path
      else
        let i = length (takeWhile (\<lambda>c. c \<noteq> CHR ''/'') path);
            userhome =
              (if i = 1
               then (case environ P ''HOME'' of Some h \<Rightarrow> Some h | None \<Rightarrow> pw_uid_dir P)
               else pw_nam_dir P (take (i - 1) (drop 1 path)))
        in case userhome of
             None \<Rightarrow> path
           | Some h \<Rightarrow> (let r = rstrip_slash h @ drop i path in if r = [] then ''/'' else r))"

section \<open>The program\<close>

definition SRC :: "process \<Rightarrow> string" where
  "SRC P = expanduser P ''~/storage/downloads/aigentik_app_icon.jpg''"

definition RES :: "process \<Rightarrow> string" where
  "RES P = expanduser P ''~/aigentik-android/app/src/main/res''"

definition DENSITIES :: "(string \<times> int) list" where
  "DENSITIES =
     [(''mipmap-mdpi'', 48),
      (''mipmap-hdpi'', 72),
      (''mipmap-xhdpi'', 96),
      (''mipmap-xxhdpi'', 144),
      (''mipmap-xxxhdpi'', 192)]"

text \<open>\<^verbatim>\<open>make_square(img)\<close>: crop to square from the centre.\<close>

definition make_square :: "nat \<Rightarrow> nat run" where
  "make_square img =
     and_then (img_size img) (\<lambda>(w, h).
       let side = min w h;
           left = (w - side) div 2;
           top = (h - side) div 2
       in img_crop img (left, top, left + side, top + side))"

text \<open>\<^verbatim>\<open>make_round(img, size)\<close>: resize, then apply a circular mask.\<close>

definition make_round :: "imaging \<Rightarrow> nat \<Rightarrow> int \<Rightarrow> nat run" where
  "make_round L img sz =
     and_then (img_resize L img (sz, sz)) (\<lambda>img.
     and_then (mask_new (sz, sz) 0) (\<lambda>msk.
     and_then (draw_ellipse L msk (0, 0, sz, sz) 255) (\<lambda>_.
     and_then (img_new (sz, sz) (0, 0, 0, 0)) (\<lambda>result.
     and_then (img_paste L result img (0, 0) msk) (\<lambda>_.
     ret result)))))"

text \<open>\<^verbatim>\<open>str\<close> of an integer, for the formatted messages.\<close>

fun digits :: "nat \<Rightarrow> string" where
  "digits n =
     (if n < 10 then [char_of (48 + n)] else digits (n div 10) @ [char_of (48 + n mod 10)])"

declare digits.simps [simp del]

definition str :: "int \<Rightarrow> string" where
  "str i = (if i < 0 then CHR ''-'' # digits (nat (- i)) else digits (nat i))"

text \<open>The body of the loop of \<^verbatim>\<open>main\<close> for one entry of the table.\<close>

definition icon_step :: "imaging \<Rightarrow> string \<Rightarrow> nat \<Rightarrow> string \<times> int \<Rightarrow> unit run" where
  "icon_step L res src entry =
     (case entry of (density, sz) \<Rightarrow>
        let out_dir = join res density in
        and_then (makedirs out_dir) (\<lambda>_.
        and_then (img_resize L src (sz, sz)) (\<lambda>square.
        let out_path = join out_dir ''ic_launcher.png'' in
        and_then (img_save square out_path) (\<lambda>_.
        and_then (print (''  Wrote '' @ out_path @ '' ('' @ str sz @ ''x'' @ str sz @ '')''))
          (\<lambda>_.
        and_then (img_copy src) (\<lambda>copy.
        and_then (make_round L copy sz) (\<lambda>round_img.
        let round_path = join out_dir ''ic_launcher_round.png'' in
        and_then (img_save round_img round_path) (\<lambda>_.
        print (''  Wrote '' @ round_path @ '' ('' @ str sz @ ''x'' @ str sz
                 @ '' round)'')))))))))"

definition xml_path :: "string \<Rightarrow> string" where
  "xml_path res = join (join res ''drawable'') ''ic_launcher.xml''"

definition main :: "imaging \<Rightarrow> process \<Rightarrow> unit run" where
  "main L P =
     and_then (print (''Opening source: '' @ SRC P)) (\<lambda>_.
     and_then (image_open (SRC P)) (\<lambda>src.
     and_then (make_square src) (\<lambda>src.
     and_then (img_size src) (\<lambda>(w, h).
     and_then (print (''Source cropped to '' @ str w @ ''x'' @ str h)) (\<lambda>_.
     and_then (for_each (icon_step L (RES P) src) DENSITIES) (\<lambda>_.
     and_then (path_exists (xml_path (RES P))) (\<lambda>found.
     and_then
       (if found
        then and_then (os_remove (xml_path (RES P))) (\<lambda>_.
               print (CHR 0x0A # ''Removed old '' @ xml_path (RES P)))
        else ret ()) (\<lambda>_.
     and_then (print (CHR 0x0A # ''Done! All icons generated.'')) (\<lambda>_.
     print ''Remember: manifest now uses @mipmap/ic_launcher'')))))))))"

text \<open>A run of the script is \<^verbatim>\<open>main()\<close> in a new process: its heap and its output start
  empty, the file system is as it was left.\<close>

definition boot :: "world \<Rightarrow> world" where
  "boot w = w\<lparr>images := [], masks := [], stdout := []\<rparr>"

definition script :: "imaging \<Rightarrow> process \<Rightarrow> unit run" where
  "script L P w = main L P (boot w)"

section \<open>Closed forms\<close>

text \<open>
  The rasters the two functions compute, written without the heap: the centred square of
  an image, an image brought to a side \<open>sz\<close>, the mask \<^verbatim>\<open>make_round\<close> draws and the
  image it returns. The lemmas \<open>make_square_run\<close> and \<open>make_round_run\<close> below prove that
  the program computes exactly these.
\<close>

definition resized :: "imaging \<Rightarrow> rgba image \<Rightarrow> int \<Rightarrow> rgba image" where
  "resized L img sz =
     (if (width img, height img) = (sz, sz) then img
      else \<lparr>width = sz, height = sz, pix = lanczos L img (sz, sz)\<rparr>)"

definition disc_mask :: "imaging \<Rightarrow> int \<Rightarrow> int image" where
  "disc_mask L sz =
     \<lparr>width = sz, height = sz,
      pix = (\<lambda>x y. if ellipse_fill L (0, 0, sz, sz) x y then 255 else 0)\<rparr>"

definition rounded :: "imaging \<Rightarrow> rgba image \<Rightarrow> int \<Rightarrow> rgba image" where
  "rounded L img sz =
     \<lparr>width = sz, height = sz,
      pix = (\<lambda>x y. if inside (resized L img sz) x y \<and> ellipse_fill L (0, 0, sz, sz) x y
                    then pix (resized L img sz) x y else (0, 0, 0, 0))\<rparr>"

definition squared :: "rgba image \<Rightarrow> rgba image" where
  "squared img =
     (let side = min (width img) (height img);
          left = (width img - side) div 2;
          top = (height img - side) div 2
      in \<lparr>width = side, height = side,
          pix = (\<lambda>x y. if inside img (x + left) (y + top)
                        then pix img (x + left) (y + top) else (0, 0, 0, 0))\<rparr>)"

section \<open>Example inputs\<close>


definition example_imaging :: imaging where
  "example_imaging =
     \<lparr>lanczos = (\<lambda>img sz x y. pix img (x * width img div fst sz) (y * height img div snd sz)),
      ellipse_fill = (\<lambda>b x y. case b of (x0, y0, x1, y1) \<Rightarrow>
         ((y1 - y0) * (2 * x - x0 - x1))\<^sup>2 + ((x1 - x0) * (2 * y - y0 - y1))\<^sup>2
           \<le> ((x1 - x0) * (y1 - y0))\<^sup>2),
      mix = (\<lambda>m d s. case d of (dr, dg, db, da) \<Rightarrow> case s of (sr, sg, sb, sa) \<Rightarrow>
         ((m * sr + (255 - m) * dr) div 255, (m * sg + (255 - m) * dg) div 255,
          (m * sb + (255 - m) * db) div 255, (m * sa + (255 - m) * da) div 255))\<rparr>"

definition heap_of :: "rgba image \<Rightarrow> world" where
  "heap_of img =
     \<lparr>images = [img], masks = [], files = Map.empty, dirs = {}, denied = {}, stdout = []\<rparr>"

definition gradient :: "int \<Rightarrow> int \<Rightarrow> rgba image" where
  "gradient w h = \<lparr>width = w, height = h, pix = (\<lambda>x y. (x mod 256, y mod 256, 128, 255))\<rparr>"


definition icon_path :: "string \<Rightarrow> string \<Rightarrow> string" where
  "icon_path res density = join (join res density) ''ic_launcher.png''"

definition round_path :: "string \<Rightarrow> string \<Rightarrow> string" where
  "round_path res density = join (join res density) ''ic_launcher_round.png''"

definition outputs :: "string \<Rightarrow> (string \<times> int) list \<Rightarrow> string list" where
  "outputs res ds = concat (map (\<lambda>(d, s). [icon_path res d, round_path res d]) ds)"

definition made_dirs :: "string \<Rightarrow> (string \<times> int) list \<Rightarrow> string set" where
  "made_dirs res ds = (\<Union>(d, s) \<in> set ds. set (ancestors (join res d) @ [join res d]))"

definition wrote :: "string \<Rightarrow> string \<times> int \<Rightarrow> string list" where
  "wrote res entry =
     (case entry of (d, s) \<Rightarrow>
        [''  Wrote '' @ icon_path res d @ '' ('' @ str s @ ''x'' @ str s @ '')'',
         ''  Wrote '' @ round_path res d @ '' ('' @ str s @ ''x'' @ str s @ '' round)''])"

definition save_error :: "string \<Rightarrow> world \<Rightarrow> error option" where
  "save_error p w =
     (if p \<in> dirs w then Some IsADirectoryError
      else if dirname p \<notin> dirs w then Some FileNotFoundError
      else if p \<in> denied w then Some PermissionError
      else None)"

definition home :: "process \<Rightarrow> string" where
  "home P =
     (case (case environ P ''HOME'' of Some h \<Rightarrow> Some h | None \<Rightarrow> pw_uid_dir P) of
        None \<Rightarrow> ''~''
      | Some h \<Rightarrow> rstrip_slash h)"

definition effect :: "string list \<Rightarrow> string set \<Rightarrow> world \<Rightarrow> error + unit \<Rightarrow> world \<Rightarrow> bool" where
  "effect outs made w r w' \<longleftrightarrow>
     denied w' = denied w
     \<and> dirs w \<subseteq> dirs w' \<and> dirs w' \<subseteq> dirs w \<union> made
     \<and> (\<exists>xs. images w' = images w @ xs)
     \<and> (\<exists>ms. masks w' = masks w @ ms)
     \<and> (\<exists>k \<le> length outs.
           (r = Inr () \<longrightarrow> k = length outs)
           \<and> (\<forall>p \<in> set (take k outs). \<exists>im. files w' p = Some (Picture im))
           \<and> (\<forall>p. p \<notin> set (take k outs) \<longrightarrow> files w' p = files w p))"

definition finish :: "string \<Rightarrow> unit run" where
  "finish res w =
     (let xml = xml_path res in
      if xml \<in> dirs w then (Inl IsADirectoryError, w)
      else if xml \<notin> dom (files w)
        then (Inr (), w\<lparr>stdout := stdout w @
               [CHR 0x0A # ''Done! All icons generated.'',
                ''Remember: manifest now uses @mipmap/ic_launcher'']\<rparr>)
      else if xml \<in> denied w then (Inl PermissionError, w)
      else (Inr (), w\<lparr>files := (files w)(xml := None),
              stdout := stdout w @
               [CHR 0x0A # ''Removed old '' @ xml,
                CHR 0x0A # ''Done! All icons generated.'',
                ''Remember: manifest now uses @mipmap/ic_launcher'']\<rparr>))"

definition opening_line :: "process \<Rightarrow> string" where
  "opening_line P = ''Opening source: '' @ SRC P"

definition cropped_line :: "int \<Rightarrow> int \<Rightarrow> string" where
  "cropped_line w h = ''Source cropped to '' @ str w @ ''x'' @ str h"

definition started :: "process \<Rightarrow> world \<Rightarrow> world" where
  "started P w = boot w\<lparr>stdout := [opening_line P]\<rparr>"

definition cropped :: "process \<Rightarrow> rgba image \<Rightarrow> world \<Rightarrow> world" where
  "cropped P src w =
     boot w\<lparr>images := [src, squared src],
       stdout := [opening_line P, cropped_line (width (squared src)) (height (squared src))]\<rparr>"

definition termux :: process where
  "termux =
     \<lparr>environ = [''HOME'' \<mapsto> ''/data/data/com.termux/files/home''],
      pw_uid_dir = None, pw_nam_dir = Map.empty\<rparr>"

definition disk :: "(string \<rightharpoonup> file_data) \<Rightarrow> world" where
  "disk fs = \<lparr>images = [], masks = [], files = fs, dirs = {}, denied = {}, stdout = []\<rparr>"

definition photo_disk :: world where
  "photo_disk = disk [SRC termux \<mapsto> Picture (gradient 1000 600)]"

definition icons :: "imaging \<Rightarrow> process \<Rightarrow> unit run" where
  "icons L P =
     and_then (print (''Opening source: '' @ SRC P)) (\<lambda>_.
     and_then (image_open (SRC P)) (\<lambda>src.
     and_then (make_square src) (\<lambda>src.
     and_then (img_size src) (\<lambda>(w, h).
     and_then (print (''Source cropped to '' @ str w @ ''x'' @ str h)) (\<lambda>_.
     for_each (icon_step L (RES P) src) DENSITIES)))))"





section \<open>Sequencing\<close>

lemma and_then_Inr: "m w = (Inr a, w1) \<Longrightarrow> and_then m f w = f a w1"
  by (simp add: and_then_def)

lemma and_then_Inl: "m w = (Inl e, w1) \<Longrightarrow> and_then m f w = (Inl e, w1)"
  by (simp add: and_then_def)

lemma and_then_Inr_iff:
  "and_then m f w = (Inr b, w') \<longleftrightarrow> (\<exists>a w1. m w = (Inr a, w1) \<and> f a w1 = (Inr b, w'))"
  by (auto simp: and_then_def split: prod.splits sum.splits)

lemma and_then_Inl_iff:
  "and_then m f w = (Inl e, w') \<longleftrightarrow>
     m w = (Inl e, w') \<or> (\<exists>a w1. m w = (Inr a, w1) \<and> f a w1 = (Inl e, w'))"
  by (auto simp: and_then_def split: prod.splits sum.splits)

section \<open>The two image functions\<close>

lemma resize_resized: "0 < sz \<Longrightarrow> resize L img (sz, sz) = Inr (resized L img sz)"
  by (simp add: resize_def resized_def)

lemma width_resized: "width (resized L img sz) = sz"
  by (simp add: resized_def)

lemma height_resized: "height (resized L img sz) = sz"
  by (simp add: resized_def)

lemma make_square_run:
  assumes "0 \<le> width (images w ! img)" and "0 \<le> height (images w ! img)"
  shows "make_square img w =
           (Inr (length (images w)), w\<lparr>images := images w @ [squared (images w ! img)]\<rparr>)"
  using assms
  by (simp add: make_square_def and_then_def img_size_def img_crop_def store_def crop_def
      squared_def Let_def)

lemma make_round_run:
  assumes "0 < sz"
  shows "make_round L img sz w =
           (Inr (Suc (length (images w))),
            w\<lparr>images := images w @ [resized L (images w ! img) sz, rounded L (images w ! img) sz],
              masks := masks w @ [disc_mask L sz]\<rparr>)"
proof -
  define r where "r = resized L (images w ! img) sz"
  define blank :: "int image" where "blank = \<lparr>width = sz, height = sz, pix = (\<lambda>x y. 0)\<rparr>"
  define canvas :: "rgba image" where
    "canvas = \<lparr>width = sz, height = sz, pix = (\<lambda>x y. (0, 0, 0, 0))\<rparr>"
  define w1 where "w1 = w\<lparr>images := images w @ [r]\<rparr>"
  define w2 where "w2 = w1\<lparr>masks := masks w @ [blank]\<rparr>"
  define w3 where "w3 = w1\<lparr>masks := masks w @ [disc_mask L sz]\<rparr>"
  define w4 where "w4 = w3\<lparr>images := images w @ [r, canvas]\<rparr>"
  define w5 where "w5 = w3\<lparr>images := images w @ [r, rounded L (images w ! img) sz]\<rparr>"
  have s1: "img_resize L img (sz, sz) w = (Inr (length (images w)), w1)"
    using assms by (simp add: img_resize_def store_def resize_resized w1_def r_def)
  have s2: "mask_new (sz, sz) 0 w1 = (Inr (length (masks w)), w2)"
    using assms by (simp add: mask_new_def store_mask_def new_image_def w1_def w2_def blank_def)
  have e: "ellipse L blank (0, 0, sz, sz) 255 = disc_mask L sz"
    by (simp add: ellipse_def blank_def disc_mask_def fun_eq_iff)
  have s3: "draw_ellipse L (length (masks w)) (0, 0, sz, sz) 255 w2 = (Inr (), w3)"
    by (simp add: draw_ellipse_def w2_def w3_def w1_def e)
  have s4: "img_new (sz, sz) (0, 0, 0, 0) w3 = (Inr (Suc (length (images w))), w4)"
    using assms by (simp add: img_new_def store_def new_image_def w3_def w1_def w4_def canvas_def)
  have p: "paste L canvas r (0, 0) (disc_mask L sz) = Inr (rounded L (images w ! img) sz)"
    by (auto simp: paste_def canvas_def disc_mask_def rounded_def r_def width_resized
        height_resized blend_def fun_eq_iff)
  have s5: "img_paste L (Suc (length (images w))) (length (images w)) (0, 0) (length (masks w)) w4
              = (Inr (), w5)"
    by (simp add: img_paste_def w4_def w3_def w1_def w5_def nth_append list_update_append p)
  have "make_round L img sz w = (Inr (Suc (length (images w))), w5)"
    unfolding make_round_def
    by (simp add: and_then_def s1 s2 s3 s4 s5 ret_def)
  then show ?thesis
    by (simp add: w5_def w3_def w1_def r_def)
qed



subsection \<open>The square cropper\<close>

text \<open>
  Claim C2. For an image of width \<open>w\<close> and height \<open>h\<close> (neither negative),
  \<^verbatim>\<open>make_square\<close> succeeds and returns a new image object of side \<open>min w h\<close> on both
  axes whose pixel \<open>(x, y)\<close> is the input's pixel at
  \<open>(x + (w - side) div 2, y + (h - side) div 2)\<close>: the window's top-left corner is at
  \<open>((w - side) div 2, (h - side) div 2)\<close>, with floor division. The world afterwards is
  the world before with that one object added to the heap: nothing else was touched
  (files, directories, output, the objects that existed).
\<close>

theorem make_square_centre_crop:
  assumes "0 \<le> width (images w ! img)" and "0 \<le> height (images w ! img)"
  shows "let i = images w ! img; side = min (width i) (height i) in
         \<exists>c. make_square img w = (Inr (length (images w)), w\<lparr>images := images w @ [c]\<rparr>)
           \<and> width c = side \<and> height c = side
           \<and> (\<forall>x y. inside c x y \<longrightarrow>
                 pix c x y = pix i (x + (width i - side) div 2) (y + (height i - side) div 2))"
proof -
  let ?i = "images w ! img"
  have "\<forall>x y. inside (squared ?i) x y \<longrightarrow>
          pix (squared ?i) x y =
            pix ?i (x + (width ?i - min (width ?i) (height ?i)) div 2)
              (y + (height ?i - min (width ?i) (height ?i)) div 2)"
    by (auto simp: squared_def inside_def Let_def)
  moreover have "width (squared ?i) = min (width ?i) (height ?i)"
    and "height (squared ?i) = min (width ?i) (height ?i)"
    by (simp_all add: squared_def Let_def)
  ultimately show ?thesis
    using make_square_run [OF assms] unfolding Let_def by blast
qed

theorem make_square_centre_crop_witness:
  "0 \<le> width (images (heap_of (gradient 1000 600)) ! 0)
   \<and> 0 \<le> height (images (heap_of (gradient 1000 600)) ! 0)
   \<and> (\<exists>c. make_square 0 (heap_of (gradient 1000 600))
            = (Inr 1, heap_of (gradient 1000 600)\<lparr>images := [gradient 1000 600, c]\<rparr>)
          \<and> width c = 600 \<and> height c = 600 \<and> pix c 0 0 = (200, 0, 128, 255))"
  using make_square_centre_crop [of "heap_of (gradient 1000 600)" 0]
  by (auto simp: heap_of_def gradient_def Let_def inside_def)

lemma squared_square:
  assumes "width i = height i"
  shows "squared i = \<lparr>width = width i, height = height i,
            pix = (\<lambda>x y. if inside i x y then pix i x y else (0, 0, 0, 0))\<rparr>"
  using assms by (simp add: squared_def Let_def fun_eq_iff)

lemma squared_twice:
  assumes "width i = height i"
  shows "squared (squared i) = squared i"
  using assms by (simp add: squared_square inside_def fun_eq_iff)

text \<open>
  Claim C10. On an image whose width equals its height, \<^verbatim>\<open>make_square\<close> returns an
  image with the same width, the same height and, at every position of the image, the
  same pixel; and \<^verbatim>\<open>make_square\<close> applied to that result returns an image equal to it:
  twice is the same as once.
\<close>

theorem make_square_idempotent:
  assumes "width (images w ! img) = height (images w ! img)"
    and "0 \<le> width (images w ! img)"
  shows "\<exists>c. make_square img w = (Inr (length (images w)), w\<lparr>images := images w @ [c]\<rparr>)
           \<and> width c = width (images w ! img) \<and> height c = height (images w ! img)
           \<and> (\<forall>x y. inside (images w ! img) x y \<longrightarrow> pix c x y = pix (images w ! img) x y)
           \<and> make_square (length (images w)) (w\<lparr>images := images w @ [c]\<rparr>)
                = (Inr (Suc (length (images w))), w\<lparr>images := images w @ [c, c]\<rparr>)"
proof -
  let ?i = "images w ! img"
  let ?c = "squared ?i"
  let ?w1 = "w\<lparr>images := images w @ [?c]\<rparr>"
  have h: "0 \<le> height ?i" using assms by simp
  have first: "make_square img w = (Inr (length (images w)), ?w1)"
    using make_square_run [OF assms(2) h] .
  have dims: "width ?c = width ?i" "height ?c = height ?i"
    using assms(1) by (simp_all add: squared_square)
  have same: "\<forall>x y. inside ?i x y \<longrightarrow> pix ?c x y = pix ?i x y"
    using assms(1) by (simp add: squared_square)
  have at: "images ?w1 ! length (images w) = ?c" by simp
  have "make_square (length (images w)) ?w1
          = (Inr (length (images ?w1)), ?w1\<lparr>images := images ?w1 @ [squared ?c]\<rparr>)"
    using make_square_run [of ?w1 "length (images w)"] by (simp add: dims assms h)
  then have second: "make_square (length (images w)) ?w1
          = (Inr (Suc (length (images w))), w\<lparr>images := images w @ [?c, ?c]\<rparr>)"
    using assms(1) by (simp add: squared_twice)
  from first dims same second show ?thesis by blast
qed

theorem make_square_idempotent_witness:
  "width (images (heap_of (gradient 4 4)) ! 0) = height (images (heap_of (gradient 4 4)) ! 0)
   \<and> 0 \<le> width (images (heap_of (gradient 4 4)) ! 0)
   \<and> (\<exists>c. make_square 0 (heap_of (gradient 4 4))
             = (Inr 1, heap_of (gradient 4 4)\<lparr>images := [gradient 4 4, c]\<rparr>)
          \<and> width c = 4 \<and> height c = 4 \<and> pix c 3 2 = (3, 2, 128, 255)
          \<and> make_square 1 (heap_of (gradient 4 4)\<lparr>images := [gradient 4 4, c]\<rparr>)
             = (Inr 2, heap_of (gradient 4 4)\<lparr>images := [gradient 4 4, c, c]\<rparr>))"
  using make_square_idempotent [of "heap_of (gradient 4 4)" 0]
  by (auto simp: heap_of_def gradient_def inside_def)


subsection \<open>The round masker\<close>

lemma pix_rounded:
  "pix (rounded L i sz) x y =
     (if inside (resized L i sz) x y \<and> ellipse_fill L (0, 0, sz, sz) x y
      then pix (resized L i sz) x y else (0, 0, 0, 0))"
  by (simp add: rounded_def)

lemma inside_rounded: "inside (rounded L i sz) x y = inside (resized L i sz) x y"
  by (simp add: rounded_def inside_def width_resized height_resized)

text \<open>
  Claim C9. For a side \<open>sz > 0\<close>, the mask \<^verbatim>\<open>make_round\<close> builds has the values 0 and
  255 only, whatever the library's ellipse paints; and every pixel of the image it
  returns is either \<open>(0, 0, 0, 0)\<close> (where the mask is 0) or exactly the pixel of the
  resized input (where the mask is 255). Nothing is blended.
\<close>

theorem round_mask_is_binary:
  assumes "0 < sz"
  shows "\<exists>r m res.
           make_round L img sz w =
             (Inr (Suc (length (images w))),
              w\<lparr>images := images w @ [r, res], masks := masks w @ [m]\<rparr>)
           \<and> resize L (images w ! img) (sz, sz) = Inr r
           \<and> width m = sz \<and> height m = sz \<and> width res = sz \<and> height res = sz
           \<and> (\<forall>x y. pix m x y = 0 \<or> pix m x y = 255)
           \<and> (\<forall>x y. inside res x y \<longrightarrow>
                  pix m x y = 0 \<and> pix res x y = (0, 0, 0, 0)
                  \<or> pix m x y = 255 \<and> pix res x y = pix r x y)"
proof -
  let ?i = "images w ! img"
  have "width (disc_mask L sz) = sz \<and> height (disc_mask L sz) = sz
      \<and> width (rounded L ?i sz) = sz \<and> height (rounded L ?i sz) = sz"
    by (simp add: disc_mask_def rounded_def)
  moreover have "\<forall>x y. pix (disc_mask L sz) x y = 0 \<or> pix (disc_mask L sz) x y = 255"
    by (simp add: disc_mask_def)
  moreover have "\<forall>x y. inside (rounded L ?i sz) x y \<longrightarrow>
      pix (disc_mask L sz) x y = 0 \<and> pix (rounded L ?i sz) x y = (0, 0, 0, 0)
      \<or> pix (disc_mask L sz) x y = 255 \<and> pix (rounded L ?i sz) x y = pix (resized L ?i sz) x y"
    by (simp add: disc_mask_def pix_rounded inside_rounded)
  ultimately show ?thesis
    using make_round_run [OF assms, of L img w] resize_resized [OF assms, of L ?i] by blast
qed

theorem round_mask_is_binary_witness:
  "(0::int) < 4
   \<and> (\<exists>r m res.
         make_round example_imaging 0 4 (heap_of (gradient 8 8)) =
           (Inr 2, heap_of (gradient 8 8)\<lparr>images := [gradient 8 8, r, res], masks := [m]\<rparr>)
         \<and> pix r 2 2 = (4, 4, 128, 255)
         \<and> (pix m 2 2 = 0 \<or> pix m 2 2 = 255)
         \<and> (pix res 2 2 = (0, 0, 0, 0) \<or> pix res 2 2 = (4, 4, 128, 255)))"
proof -
  have pos: "(0::int) < 4" by simp
  obtain r m res where
    run: "make_round example_imaging 0 4 (heap_of (gradient 8 8)) =
            (Inr (Suc (length (images (heap_of (gradient 8 8))))),
             heap_of (gradient 8 8)\<lparr>images := images (heap_of (gradient 8 8)) @ [r, res],
               masks := masks (heap_of (gradient 8 8)) @ [m]\<rparr>)"
    and r: "resize example_imaging (images (heap_of (gradient 8 8)) ! 0) (4, 4) = Inr r"
    and dims: "width res = 4 \<and> height res = 4"
    and m: "\<forall>x y. pix m x y = 0 \<or> pix m x y = 255"
    and res: "\<forall>x y. inside res x y \<longrightarrow>
                pix m x y = 0 \<and> pix res x y = (0, 0, 0, 0)
                \<or> pix m x y = 255 \<and> pix res x y = pix r x y"
    using round_mask_is_binary [OF pos, of example_imaging 0 "heap_of (gradient 8 8)"] by blast
  from r have r_eq: "r = \<lparr>width = 4, height = 4,
      pix = lanczos example_imaging (gradient 8 8) (4, 4)\<rparr>"
    by (simp add: resize_def heap_of_def gradient_def)
  then have r22: "pix r 2 2 = (4, 4, 128, 255)"
    by (simp add: example_imaging_def gradient_def)
  from dims have "inside res 2 2" by (simp add: inside_def)
  with res r22 have "pix res 2 2 = (0, 0, 0, 0) \<or> pix res 2 2 = (4, 4, 128, 255)"
    by metis
  with run r22 m pos show ?thesis
    by (auto simp: heap_of_def)
qed





lemma img_save_run:
  "img_save r p w =
     (case save_error p w of
        Some e \<Rightarrow> (Inl e, w)
      | None \<Rightarrow> (Inr (), w\<lparr>files := (files w)(p \<mapsto> Picture (images w ! r))\<rparr>))"
  by (simp add: img_save_def save_error_def)

lemma mkdirs_frame:
  "mkdirs ps w = (r, w') \<Longrightarrow> \<exists>D. w' = w\<lparr>dirs := D\<rparr> \<and> dirs w \<subseteq> D \<and> D \<subseteq> dirs w \<union> set ps"
proof (induction ps arbitrary: w)
  case Nil
  then have "w' = w\<lparr>dirs := dirs w\<rparr>" by simp
  then show ?case by blast
next
  case (Cons p ps)
  show ?case
  proof (cases "p \<in> dirs w")
    case True
    with Cons.prems have "mkdirs ps w = (r, w')" by simp
    from Cons.IH [OF this] show ?thesis by auto
  next
    case False
    show ?thesis
    proof (cases "p \<in> dom (files w) \<or> p \<in> denied w")
      case True
      with False Cons.prems have "w' = w\<lparr>dirs := dirs w\<rparr>" by (auto split: if_splits)
      then show ?thesis by blast
    next
      case False
      with \<open>p \<notin> dirs w\<close> Cons.prems
      have "mkdirs ps (w\<lparr>dirs := insert p (dirs w)\<rparr>) = (r, w')" by (auto split: if_splits)
      from Cons.IH [OF this] obtain D where
        "w' = w\<lparr>dirs := insert p (dirs w)\<rparr>\<lparr>dirs := D\<rparr>" "insert p (dirs w) \<subseteq> D"
        "D \<subseteq> insert p (dirs w) \<union> set ps" by auto
      then have "w' = w\<lparr>dirs := D\<rparr> \<and> dirs w \<subseteq> D \<and> D \<subseteq> dirs w \<union> set (p # ps)" by auto
      then show ?thesis by blast
    qed
  qed
qed

lemma mkdirs_ok: "mkdirs ps w = (Inr (), w') \<Longrightarrow> w' = w\<lparr>dirs := dirs w \<union> set ps\<rparr>"
proof (induction ps arbitrary: w)
  case Nil
  then show ?case by simp
next
  case (Cons p ps)
  show ?case
  proof (cases "p \<in> dirs w")
    case True
    with Cons.prems have "mkdirs ps w = (Inr (), w')" by simp
    from Cons.IH [OF this] True show ?thesis by (simp add: insert_absorb)
  next
    case False
    with Cons.prems have "mkdirs ps (w\<lparr>dirs := insert p (dirs w)\<rparr>) = (Inr (), w')"
      by (auto split: if_splits)
    from Cons.IH [OF this] show ?thesis by simp
  qed
qed

lemma mkdirs_present: "set ps \<subseteq> dirs w \<Longrightarrow> mkdirs ps w = (Inr (), w)"
  by (induction ps arbitrary: w) auto


lemma save_error_same:
  "dirs w' = dirs w \<Longrightarrow> denied w' = denied w \<Longrightarrow> save_error p w' = save_error p w"
  by (simp add: save_error_def)

lemma save_error_update [simp]:
  "save_error p (w\<lparr>images := i\<rparr>) = save_error p w"
  "save_error p (w\<lparr>masks := m\<rparr>) = save_error p w"
  "save_error p (w\<lparr>files := f\<rparr>) = save_error p w"
  "save_error p (w\<lparr>stdout := out\<rparr>) = save_error p w"
  by (simp_all add: save_error_def)

lemma icon_step_run:
  assumes "0 < s" and "src < length (images w)"
  shows "icon_step L res src (d, s) w =
     (case makedirs (join res d) w of
        (Inl e, w1) \<Rightarrow> (Inl e, w1)
      | (Inr u, w1) \<Rightarrow>
          (case save_error (icon_path res d) w1 of
             Some e \<Rightarrow>
               (Inl e, w1\<lparr>images := images w @ [resized L (images w ! src) s]\<rparr>)
           | None \<Rightarrow>
               (case save_error (round_path res d) w1 of
                  Some e \<Rightarrow>
                    (Inl e,
                     w1\<lparr>images := images w @ [resized L (images w ! src) s, images w ! src,
                           resized L (images w ! src) s, rounded L (images w ! src) s],
                        masks := masks w @ [disc_mask L s],
                        files := (files w)(icon_path res d \<mapsto>
                           Picture (resized L (images w ! src) s)),
                        stdout := stdout w @ [hd (wrote res (d, s))]\<rparr>)
                | None \<Rightarrow>
                    (Inr (),
                     w1\<lparr>images := images w @ [resized L (images w ! src) s, images w ! src,
                           resized L (images w ! src) s, rounded L (images w ! src) s],
                        masks := masks w @ [disc_mask L s],
                        files := (files w)(icon_path res d \<mapsto>
                             Picture (resized L (images w ! src) s),
                           round_path res d \<mapsto> Picture (rounded L (images w ! src) s)),
                        stdout := stdout w @ wrote res (d, s)\<rparr>))))"
proof -
  let ?c = "images w ! src"
  let ?sq = "resized L ?c s"
  let ?rd = "rounded L ?c s"
  let ?n = "length (images w)"
  let ?icon = "icon_path res d"
  let ?round = "round_path res d"
  let ?l1 = "''  Wrote '' @ ?icon @ '' ('' @ str s @ ''x'' @ str s @ '')''"
  let ?l2 = "''  Wrote '' @ ?round @ '' ('' @ str s @ ''x'' @ str s @ '' round)''"
  obtain r w1 where mk: "makedirs (join res d) w = (r, w1)" by fastforce
  then obtain D where w1: "w1 = w\<lparr>dirs := D\<rparr>"
    using mkdirs_frame [of "ancestors (join res d) @ [join res d]" w r w1]
    unfolding makedirs_def by blast
  show ?thesis
  proof (cases r)
    case (Inl e)
    with mk show ?thesis by (simp add: icon_step_def and_then_def Let_def)
  next
    case (Inr u)
    define w2 where "w2 = w1\<lparr>images := images w @ [?sq]\<rparr>"
    have s2: "img_resize L src (s, s) w1 = (Inr ?n, w2)"
      using assms by (simp add: img_resize_def store_def resize_resized w1 w2_def)
    show ?thesis
    proof (cases "save_error ?icon w1")
      case (Some e)
      then have "img_save ?n ?icon w2 = (Inl e, w2)"
        by (simp add: img_save_run w2_def)
      with mk Inr s2 Some show ?thesis
        by (simp add: icon_step_def and_then_def icon_path_def w2_def Let_def)
    next
      case None
      define w3 where "w3 = w2\<lparr>files := (files w)(?icon \<mapsto> Picture ?sq)\<rparr>"
      define w4 where "w4 = w3\<lparr>stdout := stdout w @ [?l1]\<rparr>"
      define w5 where "w5 = w4\<lparr>images := images w @ [?sq, ?c]\<rparr>"
      define w6 where "w6 = w5\<lparr>images := images w @ [?sq, ?c, ?sq, ?rd],
                        masks := masks w @ [disc_mask L s]\<rparr>"
      have s3: "img_save ?n ?icon w2 = (Inr (), w3)"
        using None by (simp add: img_save_run w2_def w3_def w1)
      have s4: "print ?l1 w3 = (Inr (), w4)"
        by (simp add: print_def w4_def w3_def w2_def w1)
      have s5: "img_copy src w4 = (Inr (Suc ?n), w5)"
        using assms
        by (simp add: img_copy_def store_def w5_def w4_def w3_def w2_def w1 nth_append)
      have s6: "make_round L (Suc ?n) s w5 = (Inr (Suc (Suc (Suc ?n))), w6)"
        using make_round_run [OF assms(1), of L "Suc ?n" w5]
        by (simp add: w6_def w5_def w4_def w3_def w2_def w1 nth_append)
      have same: "save_error ?round w6 = save_error ?round w1"
        by (rule save_error_same) (simp_all add: w6_def w5_def w4_def w3_def w2_def)
      have at: "images w6 ! Suc (Suc (Suc ?n)) = ?rd"
        by (simp add: w6_def nth_append)
      show ?thesis
      proof (cases "save_error ?round w1")
        case (Some e)
        then have "img_save (Suc (Suc (Suc ?n))) ?round w6 = (Inl e, w6)"
          by (simp add: img_save_run same)
        with mk Inr s2 None s3 s4 s5 s6 Some show ?thesis
          by (simp add: icon_step_def and_then_def icon_path_def round_path_def wrote_def Let_def
              w6_def w5_def w4_def w3_def w2_def)
      next
        case N2: None
        define w7 where "w7 = w6\<lparr>files := (files w)(?icon \<mapsto> Picture ?sq,
                                  ?round \<mapsto> Picture ?rd)\<rparr>"
        have s7: "img_save (Suc (Suc (Suc ?n))) ?round w6 = (Inr (), w7)"
          using N2 by (simp add: img_save_run same at)
            (simp add: w7_def w6_def w5_def w4_def w3_def w2_def)
        have s8: "print ?l2 w7 = (Inr (), w7\<lparr>stdout := stdout w @ [?l1, ?l2]\<rparr>)"
          by (simp add: print_def w7_def w6_def w5_def w4_def)
        from mk Inr s2 None s3 s4 s5 s6 N2 s7 s8 show ?thesis
          by (simp add: icon_step_def and_then_def icon_path_def round_path_def wrote_def Let_def
              w7_def w6_def w5_def w4_def w3_def w2_def)
      qed
    qed
  qed
qed


lemma makedirs_frame:
  assumes "makedirs p w = (r, w')"
  obtains D where "w' = w\<lparr>dirs := D\<rparr>" and "dirs w \<subseteq> D"
    and "D \<subseteq> dirs w \<union> set (ancestors p @ [p])"
  using mkdirs_frame [of "ancestors p @ [p]" w r w'] assms unfolding makedirs_def by blast

lemma icon_step_cases:
  assumes "0 < s" and "src < length (images w)"
    and "icon_step L res src (d, s) w = (r, w')"
  obtains
    (dirs_failed) e where "r = Inl e" "makedirs (join res d) w = (Inl e, w')"
  | (icon_failed) e w1 where "r = Inl e" "makedirs (join res d) w = (Inr (), w1)"
      "save_error (icon_path res d) w1 = Some e"
      "w' = w1\<lparr>images := images w @ [resized L (images w ! src) s]\<rparr>"
  | (round_failed) e w1 where "r = Inl e" "makedirs (join res d) w = (Inr (), w1)"
      "save_error (icon_path res d) w1 = None"
      "save_error (round_path res d) w1 = Some e"
      "w' = w1\<lparr>images := images w @ [resized L (images w ! src) s, images w ! src,
                   resized L (images w ! src) s, rounded L (images w ! src) s],
                masks := masks w @ [disc_mask L s],
                files := (files w)(icon_path res d \<mapsto> Picture (resized L (images w ! src) s)),
                stdout := stdout w @ [hd (wrote res (d, s))]\<rparr>"
  | (completed) w1 where "r = Inr ()" "makedirs (join res d) w = (Inr (), w1)"
      "save_error (icon_path res d) w1 = None"
      "save_error (round_path res d) w1 = None"
      "w' = w1\<lparr>images := images w @ [resized L (images w ! src) s, images w ! src,
                   resized L (images w ! src) s, rounded L (images w ! src) s],
                masks := masks w @ [disc_mask L s],
                files := (files w)(icon_path res d \<mapsto> Picture (resized L (images w ! src) s),
                   round_path res d \<mapsto> Picture (rounded L (images w ! src) s)),
                stdout := stdout w @ wrote res (d, s)\<rparr>"
proof -
  obtain r0 w1 where mk: "makedirs (join res d) w = (r0, w1)" by fastforce
  show thesis
  proof (cases r0)
    case (Inl e)
    with mk assms(3) icon_step_run [OF assms(1,2), of L res d] show thesis
      by (auto intro: dirs_failed)
  next
    case (Inr u)
    with mk have mk': "makedirs (join res d) w = (Inr (), w1)" by simp
    show thesis
    proof (cases "save_error (icon_path res d) w1")
      case (Some e)
      with mk' assms(3) icon_step_run [OF assms(1,2), of L res d] show thesis
        by (auto intro: icon_failed)
    next
      case None
      show thesis
      proof (cases "save_error (round_path res d) w1")
        case (Some e)
        with None mk' assms(3) icon_step_run [OF assms(1,2), of L res d] show thesis
          by (auto intro: round_failed)
      next
        case N2: None
        with None mk' assms(3) icon_step_run [OF assms(1,2), of L res d] show thesis
          by (auto intro: completed)
      qed
    qed
  qed
qed


lemma effect_fail:
  assumes "effect o1 m1 w (Inl e) w'"
  shows "effect (o1 @ o2) (m1 \<union> m2) w (Inl e) w'"
proof -
  from assms obtain k where k: "k \<le> length o1"
    "\<forall>p \<in> set (take k o1). \<exists>im. files w' p = Some (Picture im)"
    "\<forall>p. p \<notin> set (take k o1) \<longrightarrow> files w' p = files w p"
    unfolding effect_def by blast
  then have "k \<le> length (o1 @ o2)" and "take k (o1 @ o2) = take k o1" by simp_all
  with k have "\<exists>k \<le> length (o1 @ o2).
      (Inl e = (Inr () :: error + unit) \<longrightarrow> k = length (o1 @ o2))
      \<and> (\<forall>p \<in> set (take k (o1 @ o2)). \<exists>im. files w' p = Some (Picture im))
      \<and> (\<forall>p. p \<notin> set (take k (o1 @ o2)) \<longrightarrow> files w' p = files w p)"
    by (intro exI [of _ k]) simp
  with assms show ?thesis unfolding effect_def by blast
qed

lemma effect_seq:
  assumes "effect o1 m1 w (Inr ()) w1" and "effect o2 m2 w1 r w'"
  shows "effect (o1 @ o2) (m1 \<union> m2) w r w'"
proof -
  from assms(1) have a: "denied w1 = denied w" "dirs w \<subseteq> dirs w1" "dirs w1 \<subseteq> dirs w \<union> m1"
      "\<exists>xs. images w1 = images w @ xs" "\<exists>ms. masks w1 = masks w @ ms"
      "\<forall>p \<in> set o1. \<exists>im. files w1 p = Some (Picture im)"
      "\<forall>p. p \<notin> set o1 \<longrightarrow> files w1 p = files w p"
    unfolding effect_def by auto
  from assms(2) obtain k where b: "denied w' = denied w1" "dirs w1 \<subseteq> dirs w'"
      "dirs w' \<subseteq> dirs w1 \<union> m2"
      "\<exists>xs. images w' = images w1 @ xs" "\<exists>ms. masks w' = masks w1 @ ms"
      "k \<le> length o2" "r = Inr () \<longrightarrow> k = length o2"
      "\<forall>p \<in> set (take k o2). \<exists>im. files w' p = Some (Picture im)"
      "\<forall>p. p \<notin> set (take k o2) \<longrightarrow> files w' p = files w1 p"
    unfolding effect_def by auto
  let ?k = "length o1 + k"
  have t: "take ?k (o1 @ o2) = o1 @ take k o2" by simp
  have 1: "?k \<le> length (o1 @ o2)" using b(6) by simp
  have 2: "r = Inr () \<longrightarrow> ?k = length (o1 @ o2)" using b(7) by simp
  have 3: "\<forall>p \<in> set (take ?k (o1 @ o2)). \<exists>im. files w' p = Some (Picture im)"
  proof
    fix p assume "p \<in> set (take ?k (o1 @ o2))"
    then have p: "p \<in> set o1 \<or> p \<in> set (take k o2)" unfolding t by auto
    show "\<exists>im. files w' p = Some (Picture im)"
    proof (cases "p \<in> set (take k o2)")
      case True
      with b(8) show ?thesis by blast
    next
      case False
      with p have "p \<in> set o1" by blast
      with a(6) False b(9) show ?thesis by metis
    qed
  qed
  have 4: "\<forall>p. p \<notin> set (take ?k (o1 @ o2)) \<longrightarrow> files w' p = files w p"
    unfolding t using a(7) b(9) by auto
  from 1 2 3 4 have "\<exists>k \<le> length (o1 @ o2).
      (r = Inr () \<longrightarrow> k = length (o1 @ o2))
      \<and> (\<forall>p \<in> set (take k (o1 @ o2)). \<exists>im. files w' p = Some (Picture im))
      \<and> (\<forall>p. p \<notin> set (take k (o1 @ o2)) \<longrightarrow> files w' p = files w p)"
    by blast
  moreover have "denied w' = denied w" using a(1) b(1) by simp
  moreover have "dirs w \<subseteq> dirs w'" using a(2) b(2) by blast
  moreover have "dirs w' \<subseteq> dirs w \<union> (m1 \<union> m2)" using a(3) b(3) by blast
  moreover have "\<exists>xs. images w' = images w @ xs" using a(4) b(4) by auto
  moreover have "\<exists>ms. masks w' = masks w @ ms" using a(5) b(5) by auto
  ultimately show ?thesis unfolding effect_def by blast
qed

lemma icon_step_effect:
  assumes "0 < s" and "src < length (images w)"
    and "icon_step L res src (d, s) w = (r, w')"
  shows "effect [icon_path res d, round_path res d]
           (set (ancestors (join res d) @ [join res d])) w r w'"
  using assms
proof (cases rule: icon_step_cases)
  case (dirs_failed e)
  from makedirs_frame [OF dirs_failed(2)] obtain D where
    "w' = w\<lparr>dirs := D\<rparr>" "dirs w \<subseteq> D" "D \<subseteq> dirs w \<union> set (ancestors (join res d) @ [join res d])"
    by blast
  then show ?thesis unfolding effect_def
    by (intro conjI exI [of _ "0::nat"]) (simp_all add: dirs_failed(1))
next
  case (icon_failed e w1)
  from makedirs_frame [OF icon_failed(2)] obtain D where
    "w1 = w\<lparr>dirs := D\<rparr>" "dirs w \<subseteq> D" "D \<subseteq> dirs w \<union> set (ancestors (join res d) @ [join res d])"
    by blast
  then show ?thesis unfolding effect_def
    by (intro conjI exI [of _ "0::nat"]) (simp_all add: icon_failed(1,4))
next
  case (round_failed e w1)
  from makedirs_frame [OF round_failed(2)] obtain D where
    "w1 = w\<lparr>dirs := D\<rparr>" "dirs w \<subseteq> D" "D \<subseteq> dirs w \<union> set (ancestors (join res d) @ [join res d])"
    by blast
  then show ?thesis unfolding effect_def
    by (intro conjI exI [of _ "1::nat"]) (simp_all add: round_failed(1,5))
next
  case (completed w1)
  from makedirs_frame [OF completed(2)] obtain D where
    "w1 = w\<lparr>dirs := D\<rparr>" "dirs w \<subseteq> D" "D \<subseteq> dirs w \<union> set (ancestors (join res d) @ [join res d])"
    by blast
  then show ?thesis unfolding effect_def
    by (intro conjI exI [of _ "2::nat"]) (auto simp: completed(1,5))
qed

lemma made_dirs_Cons:
  "made_dirs res ((d, s) # ds) = set (ancestors (join res d) @ [join res d]) \<union> made_dirs res ds"
  by (simp add: made_dirs_def)

lemma outputs_Cons:
  "outputs res ((d, s) # ds) = [icon_path res d, round_path res d] @ outputs res ds"
  by (simp add: outputs_def)

lemma loop_effect:
  assumes "\<forall>(d, s) \<in> set ds. 0 < s" and "src < length (images w)"
    and "for_each (icon_step L res src) ds w = (r, w')"
  shows "effect (outputs res ds) (made_dirs res ds) w r w'"
  using assms
proof (induction ds arbitrary: w)
  case Nil
  then have "r = Inr ()" "w' = w" by (simp_all add: ret_def)
  then show ?case by (simp add: effect_def outputs_def made_dirs_def)
next
  case (Cons x ds)
  obtain d s where x: "x = (d, s)" by (cases x)
  with Cons.prems(1) have s: "0 < s" by simp
  obtain r1 w1 where st: "icon_step L res src (d, s) w = (r1, w1)" by fastforce
  have e1: "effect [icon_path res d, round_path res d]
              (set (ancestors (join res d) @ [join res d])) w r1 w1"
    using icon_step_effect [OF s Cons.prems(2) st] .
  show ?case
  proof (cases r1)
    case (Inl e)
    with st Cons.prems(3) x have "r = Inl e" "w' = w1" by (simp_all add: and_then_def)
    with e1 Inl show ?thesis
      unfolding x outputs_Cons made_dirs_Cons by (simp only: effect_fail)
  next
    case (Inr u)
    with st Cons.prems(3) x have rest: "for_each (icon_step L res src) ds w1 = (r, w')"
      by (simp add: and_then_def)
    from e1 have "\<exists>xs. images w1 = images w @ xs" unfolding effect_def by blast
    with Cons.prems(2) have "src < length (images w1)" by auto
    with Cons.IH [OF _ _ rest] Cons.prems(1)
    have e2: "effect (outputs res ds) (made_dirs res ds) w1 r w'" by simp
    from e1 Inr have "effect [icon_path res d, round_path res d]
              (set (ancestors (join res d) @ [join res d])) w (Inr ()) w1" by simp
    from effect_seq [OF this e2] show ?thesis
      unfolding x outputs_Cons made_dirs_Cons .
  qed
qed


lemma effect_done_files:
  assumes "effect outs made w (Inr ()) w'" and "p \<notin> set outs"
  shows "files w' p = files w p"
  using assms unfolding effect_def by auto

lemma mkdirs_granted:
  "mkdirs ps w = (Inr (), w') \<Longrightarrow> \<forall>p \<in> set ps. p \<in> dirs w \<or> p \<notin> denied w"
proof (induction ps arbitrary: w)
  case Nil
  then show ?case by simp
next
  case (Cons p ps)
  show ?case
  proof (cases "p \<in> dirs w")
    case True
    with Cons.prems have "mkdirs ps w = (Inr (), w')" by simp
    from Cons.IH [OF this] True show ?thesis by simp
  next
    case False
    with Cons.prems have ok: "p \<notin> denied w"
      and "mkdirs ps (w\<lparr>dirs := insert p (dirs w)\<rparr>) = (Inr (), w')"
      by (auto split: if_splits)
    from Cons.IH [OF this(2)] ok show ?thesis by auto
  qed
qed

lemma loop_done:
  assumes "\<forall>(d, s) \<in> set ds. 0 < s" and "src < length (images w)"
    and "for_each (icon_step L res src) ds w = (Inr (), w')"
    and "distinct (outputs res ds)"
  shows "(\<forall>(d, s) \<in> set ds.
            files w' (icon_path res d) = Some (Picture (resized L (images w ! src) s))
            \<and> files w' (round_path res d) = Some (Picture (rounded L (images w ! src) s)))
         \<and> dirs w' = dirs w \<union> made_dirs res ds
         \<and> (\<forall>p \<in> set (outputs res ds).
              p \<notin> denied w \<and> dirname p \<in> dirs w' \<and> (p \<in> dirs w' \<longrightarrow> p \<in> made_dirs res ds))
         \<and> (\<forall>p \<in> made_dirs res ds. p \<in> dirs w \<or> p \<notin> denied w)
         \<and> stdout w' = stdout w @ concat (map (wrote res) ds)"
  using assms
proof (induction ds arbitrary: w)
  case Nil
  then show ?case by (simp add: ret_def outputs_def made_dirs_def)
next
  case (Cons x ds)
  obtain d s where x: "x = (d, s)" by (cases x)
  with Cons.prems(1) have s: "0 < s" by simp
  let ?c = "images w ! src"
  let ?icon = "icon_path res d"
  let ?round = "round_path res d"
  let ?ps = "ancestors (join res d) @ [join res d]"
  obtain r1 w1 where st: "icon_step L res src (d, s) w = (r1, w1)" by fastforce
  with Cons.prems(3) x have r1: "r1 = Inr ()"
    by (cases r1) (simp_all add: and_then_def)
  with st Cons.prems(3) x have rest: "for_each (icon_step L res src) ds w1 = (Inr (), w')"
    by (simp add: and_then_def)
  from st r1 have st': "icon_step L res src (d, s) w = (Inr (), w1)" by simp
  from s Cons.prems(2) st' obtain w0 where
    mk: "makedirs (join res d) w = (Inr (), w0)"
    and si: "save_error ?icon w0 = None" and sr: "save_error ?round w0 = None"
    and w1: "w1 = w0\<lparr>images := images w @ [resized L ?c s, ?c, resized L ?c s, rounded L ?c s],
                masks := masks w @ [disc_mask L s],
                files := (files w)(?icon \<mapsto> Picture (resized L ?c s),
                   ?round \<mapsto> Picture (rounded L ?c s)),
                stdout := stdout w @ wrote res (d, s)\<rparr>"
    by (cases rule: icon_step_cases) simp_all
  from mk have w0: "w0 = w\<lparr>dirs := dirs w \<union> set ?ps\<rparr>"
    unfolding makedirs_def by (rule mkdirs_ok)
  from mk have granted: "\<forall>p \<in> set ?ps. p \<in> dirs w \<or> p \<notin> denied w"
    unfolding makedirs_def by (rule mkdirs_granted)
  have src1: "src < length (images w1)" and c1: "images w1 ! src = ?c"
    using Cons.prems(2) by (simp_all add: w1 nth_append)
  have d1: "dirs w1 = dirs w \<union> set ?ps" and dn1: "denied w1 = denied w"
    and out1: "stdout w1 = stdout w @ wrote res (d, s)"
    by (simp_all add: w1 w0)
  have dist: "distinct (outputs res ds)" and fresh: "?icon \<notin> set (outputs res ds)"
    "?round \<notin> set (outputs res ds)" and ne: "?icon \<noteq> ?round"
    using Cons.prems(4) unfolding x outputs_Cons by auto
  have pos: "\<forall>(d, s) \<in> set ds. 0 < s" using Cons.prems(1) by simp
  note IH = Cons.IH [OF pos src1 rest dist, unfolded c1 d1 dn1 out1]
  have eff: "effect (outputs res ds) (made_dirs res ds) w1 (Inr ()) w'"
    using loop_effect [OF pos src1 rest] .
  have f_icon: "files w' ?icon = Some (Picture (resized L ?c s))"
    using effect_done_files [OF eff fresh(1)] ne by (simp add: w1)
  have f_round: "files w' ?round = Some (Picture (rounded L ?c s))"
    using effect_done_files [OF eff fresh(2)] by (simp add: w1)
  have dirs': "dirs w' = dirs w \<union> made_dirs res ((d, s) # ds)"
    using IH unfolding made_dirs_Cons by auto
  have head_ok: "\<forall>p \<in> {?icon, ?round}.
      p \<notin> denied w \<and> dirname p \<in> dirs w' \<and> (p \<in> dirs w' \<longrightarrow> p \<in> made_dirs res ((d, s) # ds))"
  proof
    fix p assume p: "p \<in> {?icon, ?round}"
    then have se: "save_error p w0 = None" using si sr by auto
    then have a: "p \<notin> dirs w0" "dirname p \<in> dirs w0" "p \<notin> denied w0"
      by (auto simp: save_error_def split: if_splits)
    have "dirs w0 \<subseteq> dirs w'" using dirs' by (auto simp: w0 made_dirs_Cons)
    moreover have "dirs w' \<subseteq> dirs w0 \<union> made_dirs res ds"
      using dirs' by (auto simp: w0 made_dirs_Cons)
    ultimately show "p \<notin> denied w \<and> dirname p \<in> dirs w'
        \<and> (p \<in> dirs w' \<longrightarrow> p \<in> made_dirs res ((d, s) # ds))"
      using a by (auto simp: w0 made_dirs_Cons)
  qed
  have tail_ok: "\<forall>p \<in> set (outputs res ds).
      p \<notin> denied w \<and> dirname p \<in> dirs w' \<and> (p \<in> dirs w' \<longrightarrow> p \<in> made_dirs res ((d, s) # ds))"
    using IH unfolding made_dirs_Cons by auto
  have granted': "\<forall>p \<in> made_dirs res ((d, s) # ds). p \<in> dirs w \<or> p \<notin> denied w"
    using IH granted unfolding made_dirs_Cons by auto
  have out': "stdout w' = stdout w @ concat (map (wrote res) ((d, s) # ds))"
    using IH by simp
  have files': "\<forall>(d', s') \<in> set ((d, s) # ds).
            files w' (icon_path res d') = Some (Picture (resized L ?c s'))
            \<and> files w' (round_path res d') = Some (Picture (rounded L ?c s'))"
    using IH f_icon f_round by auto
  from files' dirs' head_ok tail_ok granted' out' show ?case
    unfolding x outputs_Cons by auto
qed


lemma make_square_cases:
  "make_square img w =
     (if min (width (images w ! img)) (height (images w ! img)) < 0 then (Inl ValueError, w)
      else (Inr (length (images w)), w\<lparr>images := images w @ [squared (images w ! img)]\<rparr>))"
  by (simp add: make_square_def and_then_def img_size_def img_crop_def store_def crop_def
      squared_def Let_def)

lemma tail_run:
  "and_then (path_exists (xml_path res)) (\<lambda>found.
     and_then
       (if found
        then and_then (os_remove (xml_path res)) (\<lambda>_.
               print (CHR 0x0A # ''Removed old '' @ xml_path res))
        else ret ()) (\<lambda>_.
     and_then (print (CHR 0x0A # ''Done! All icons generated.'')) (\<lambda>_.
     print ''Remember: manifest now uses @mipmap/ic_launcher''))) w = finish res w"
  by (simp add: and_then_def path_exists_def os_remove_def print_def ret_def finish_def Let_def)

lemma tail_finish:
  "and_then (path_exists (xml_path res)) (\<lambda>found.
     and_then
       (if found
        then and_then (os_remove (xml_path res)) (\<lambda>_.
               print (CHR 0x0A # ''Removed old '' @ xml_path res))
        else ret ()) (\<lambda>_.
     and_then (print (CHR 0x0A # ''Done! All icons generated.'')) (\<lambda>_.
     print ''Remember: manifest now uses @mipmap/ic_launcher''))) = finish res"
  by (rule ext) (rule tail_run)

lemma main_finish:
  "main L P =
     and_then (print (opening_line P)) (\<lambda>_.
     and_then (image_open (SRC P)) (\<lambda>src.
     and_then (make_square src) (\<lambda>src.
     and_then (img_size src) (\<lambda>(w, h).
     and_then (print (cropped_line w h)) (\<lambda>_.
     and_then (for_each (icon_step L (RES P) src) DENSITIES) (\<lambda>_.
     finish (RES P)))))))"
  unfolding main_def tail_finish opening_line_def cropped_line_def ..

lemma script_run:
  "script L P w =
     (if SRC P \<in> dirs w then (Inl IsADirectoryError, started P w)
      else case files w (SRC P) of
        None \<Rightarrow> (Inl FileNotFoundError, started P w)
      | Some f \<Rightarrow>
          if SRC P \<in> denied w then (Inl PermissionError, started P w)
          else (case f of
             Other s \<Rightarrow> (Inl UnidentifiedImageError, started P w)
           | Picture src \<Rightarrow>
               if min (width src) (height src) < 0
               then (Inl ValueError, started P w\<lparr>images := [src]\<rparr>)
               else (case for_each (icon_step L (RES P) 1) DENSITIES (cropped P src w) of
                       (Inl e, w4) \<Rightarrow> (Inl e, w4)
                     | (Inr u, w4) \<Rightarrow> finish (RES P) w4)))"
proof -
  let ?w0 = "started P w"
  have p0: "print (opening_line P) (boot w) = (Inr (), ?w0)"
    by (simp add: print_def started_def boot_def)
  have fs: "dirs ?w0 = dirs w" "files ?w0 = files w" "denied ?w0 = denied w" "images ?w0 = []"
    by (simp_all add: started_def boot_def)
  show ?thesis
  proof (cases "SRC P \<in> dirs w")
    case True
    then have "image_open (SRC P) ?w0 = (Inl IsADirectoryError, ?w0)"
      by (simp add: image_open_def fs)
    with True show ?thesis
      unfolding script_def main_finish by (simp add: and_then_def p0)
  next
    case nd: False
    show ?thesis
    proof (cases "files w (SRC P)")
      case None
      with nd have "image_open (SRC P) ?w0 = (Inl FileNotFoundError, ?w0)"
        by (simp add: image_open_def fs)
      with nd None show ?thesis
        unfolding script_def main_finish by (simp add: and_then_def p0)
    next
      case (Some f)
      show ?thesis
      proof (cases "SRC P \<in> denied w")
        case True
        with nd Some have "image_open (SRC P) ?w0 = (Inl PermissionError, ?w0)"
          by (simp add: image_open_def fs)
        with nd Some True show ?thesis
          unfolding script_def main_finish by (simp add: and_then_def p0)
      next
        case ok: False
        show ?thesis
        proof (cases f)
          case (Other x)
          with nd Some ok have "image_open (SRC P) ?w0 = (Inl UnidentifiedImageError, ?w0)"
            by (simp add: image_open_def fs)
          with nd Some ok Other show ?thesis
            unfolding script_def main_finish by (simp add: and_then_def p0)
        next
          case (Picture src)
          have op: "image_open (SRC P) ?w0 = (Inr 0, ?w0\<lparr>images := [src]\<rparr>)"
            using nd Some ok Picture by (simp add: image_open_def fs store_def)
          show ?thesis
          proof (cases "min (width src) (height src) < 0")
            case True
            then have "make_square 0 (?w0\<lparr>images := [src]\<rparr>)
                = (Inl ValueError, ?w0\<lparr>images := [src]\<rparr>)"
              by (simp add: make_square_cases)
            with nd Some ok Picture True show ?thesis
              unfolding script_def main_finish by (simp add: and_then_def p0 op)
          next
            case False
            have sq: "make_square 0 (?w0\<lparr>images := [src]\<rparr>)
                = (Inr (Suc 0), ?w0\<lparr>images := [src, squared src]\<rparr>)"
              using False by (simp add: make_square_cases)
            have sz: "img_size (Suc 0) (?w0\<lparr>images := [src, squared src]\<rparr>)
                = (Inr (width (squared src), height (squared src)),
                   ?w0\<lparr>images := [src, squared src]\<rparr>)"
              by (simp add: img_size_def)
            have pr: "print (cropped_line (width (squared src)) (height (squared src)))
                  (?w0\<lparr>images := [src, squared src]\<rparr>)
                = (Inr (), cropped P src w)"
              by (simp add: print_def cropped_def started_def boot_def)
            from nd Some ok Picture False show ?thesis
              unfolding script_def main_finish by (simp add: and_then_def p0 op sq sz pr)
          qed
        qed
      qed
    qed
  qed
qed

lemma expanduser_tilde:
  "expanduser P (CHR ''~'' # CHR ''/'' # rest) = home P @ CHR ''/'' # rest"
  by (simp add: expanduser_def home_def Let_def split: option.splits)

lemma SRC_home: "SRC P = home P @ ''/storage/downloads/aigentik_app_icon.jpg''"
  unfolding SRC_def by (simp add: expanduser_tilde)

lemma RES_home: "RES P = home P @ ''/aigentik-android/app/src/main/res''"
  unfolding RES_def by (simp add: expanduser_tilde)

lemma RES_shape [simp]: "RES P \<noteq> []" "last (RES P) = CHR ''s''"
  by (simp_all add: RES_home)

lemma ancestors_prefix: "p \<in> set (ancestors d) \<Longrightarrow> strict_prefix p d"
proof -
  assume "p \<in> set (ancestors d)"
  then obtain i where "i < length d" "p = take i d"
    by (auto simp: ancestors_def)
  then have "prefix p d" "length p < length d"
    by (simp_all add: take_is_prefix)
  then show ?thesis by (auto simp: strict_prefix_def)
qed

lemma made_dirs_prefix:
  "q \<in> made_dirs res ds \<Longrightarrow> \<exists>(d, s) \<in> set ds. prefix q (join res d)"
  unfolding made_dirs_def using ancestors_prefix by (fastforce simp: strict_prefix_def)

lemma join_RES [simp]:
  "b = [] \<or> hd b \<noteq> CHR ''/'' \<Longrightarrow> join (RES P) b = RES P @ CHR ''/'' # b"
  by (auto simp: join_def RES_home)

lemma table_dirs:
  "q \<in> made_dirs (RES P) DENSITIES \<Longrightarrow>
     prefix q (RES P @ ''/mipmap-mdpi'') \<or> prefix q (RES P @ ''/mipmap-hdpi'')
     \<or> prefix q (RES P @ ''/mipmap-xhdpi'') \<or> prefix q (RES P @ ''/mipmap-xxhdpi'')
     \<or> prefix q (RES P @ ''/mipmap-xxxhdpi'')"
  by (drule made_dirs_prefix) (auto simp: DENSITIES_def)

lemma table_outputs:
  "outputs (RES P) DENSITIES =
     [RES P @ ''/mipmap-mdpi/ic_launcher.png'', RES P @ ''/mipmap-mdpi/ic_launcher_round.png'',
      RES P @ ''/mipmap-hdpi/ic_launcher.png'', RES P @ ''/mipmap-hdpi/ic_launcher_round.png'',
      RES P @ ''/mipmap-xhdpi/ic_launcher.png'', RES P @ ''/mipmap-xhdpi/ic_launcher_round.png'',
      RES P @ ''/mipmap-xxhdpi/ic_launcher.png'', RES P @ ''/mipmap-xxhdpi/ic_launcher_round.png'',
      RES P @ ''/mipmap-xxxhdpi/ic_launcher.png'',
      RES P @ ''/mipmap-xxxhdpi/ic_launcher_round.png'']"
  by (simp add: outputs_def DENSITIES_def icon_path_def round_path_def join_def)

lemma table_distinct: "distinct (outputs (RES P) DENSITIES)"
  unfolding table_outputs by simp

lemma xml_path_RES: "xml_path (RES P) = RES P @ ''/drawable/ic_launcher.xml''"
  by (simp add: xml_path_def join_def)

lemma outputs_not_dirs: "p \<in> set (outputs (RES P) DENSITIES) \<Longrightarrow> p \<notin> made_dirs (RES P) DENSITIES"
proof
  assume p: "p \<in> set (outputs (RES P) DENSITIES)" and "p \<in> made_dirs (RES P) DENSITIES"
  from table_dirs [OF this(2)] p show False
    unfolding table_outputs by auto
qed

lemma xml_not_output: "xml_path (RES P) \<notin> set (outputs (RES P) DENSITIES)"
  unfolding table_outputs xml_path_RES by simp

lemma xml_not_dir: "xml_path (RES P) \<notin> made_dirs (RES P) DENSITIES"
proof
  assume "xml_path (RES P) \<in> made_dirs (RES P) DENSITIES"
  from table_dirs [OF this] show False
    unfolding xml_path_RES by auto
qed

lemma SRC_not_output: "SRC P \<notin> set (outputs (RES P) DENSITIES)"
  unfolding table_outputs by (simp add: SRC_home RES_home)

lemma SRC_not_xml: "SRC P \<noteq> xml_path (RES P)"
  unfolding xml_path_RES by (simp add: SRC_home RES_home)

lemma SRC_not_dir: "SRC P \<notin> made_dirs (RES P) DENSITIES"
proof
  assume "SRC P \<in> made_dirs (RES P) DENSITIES"
  from table_dirs [OF this] show False
    by (auto simp: SRC_home RES_home)
qed


lemma sizes_positive: "\<forall>(d, s) \<in> set DENSITIES. 0 < s"
  by (simp add: DENSITIES_def)

lemma script_done:
  assumes "script L P w = (Inr (), w')"
  obtains src w4 where "files w (SRC P) = Some (Picture src)"
    and "SRC P \<notin> dirs w" and "SRC P \<notin> denied w"
    and "\<not> min (width src) (height src) < 0"
    and "for_each (icon_step L (RES P) 1) DENSITIES (cropped P src w) = (Inr (), w4)"
    and "finish (RES P) w4 = (Inr (), w')"
  using assms unfolding script_run
  by (auto split: if_splits option.splits file_data.splits prod.splits sum.splits)

lemma finish_done:
  assumes "finish res w = (Inr (), w')"
  shows "dirs w' = dirs w" and "denied w' = denied w" and "images w' = images w"
    and "files w' = (files w)(xml_path res := None)"
    and "xml_path res \<notin> dirs w"
    and "\<exists>ls. stdout w' = stdout w @ ls"
  using assms
  by (auto simp: finish_def Let_def fun_eq_iff split: if_splits)

lemma cropped_fields:
  "images (cropped P src w) = [src, squared src]"
  "files (cropped P src w) = files w"
  "dirs (cropped P src w) = dirs w"
  "denied (cropped P src w) = denied w"
  "stdout (cropped P src w) =
     [opening_line P, cropped_line (width (squared src)) (height (squared src))]"
  by (simp_all add: cropped_def boot_def)

lemma width_squared: "width (squared i) = min (width i) (height i)"
  by (simp add: squared_def Let_def)

lemma height_squared: "height (squared i) = min (width i) (height i)"
  by (simp add: squared_def Let_def)

lemma width_rounded: "width (rounded L i s) = s"
  by (simp add: rounded_def)

lemma height_rounded: "height (rounded L i s) = s"
  by (simp add: rounded_def)

text \<open>
  Claim C3. In every run that completes, the source file holds a picture, the picture is
  cropped to the square of side \<open>min w h\<close>, and for each of the five entries
  \<open>(d, s)\<close> of the table the directory \<open>RES/d\<close> exists and holds \<^verbatim>\<open>ic_launcher.png\<close>,
  the cropped source resized to \<open>s \<times> s\<close>, and \<^verbatim>\<open>ic_launcher_round.png\<close>, its round
  variant of \<open>s \<times> s\<close>. The ten paths are distinct, in five distinct directories, and
  the progress lines name them in the order of the table. For a \<open>1000 \<times> 600\<close> picture
  the crop is \<open>600 \<times> 600\<close>, the \<^verbatim>\<open>mipmap-mdpi\<close> outputs are \<open>48 \<times> 48\<close> and the
  \<^verbatim>\<open>mipmap-xxxhdpi\<close> outputs \<open>192 \<times> 192\<close> (the witness).
\<close>

theorem full_run_writes_icons:
  assumes "script L P w = (Inr (), w')"
  shows "\<exists>src. files w (SRC P) = Some (Picture src)
     \<and> width (squared src) = min (width src) (height src)
     \<and> height (squared src) = min (width src) (height src)
     \<and> (\<forall>(d, s) \<in> set DENSITIES.
          join (RES P) d \<in> dirs w'
          \<and> files w' (join (join (RES P) d) ''ic_launcher.png'')
              = Some (Picture (resized L (squared src) s))
          \<and> width (resized L (squared src) s) = s \<and> height (resized L (squared src) s) = s
          \<and> files w' (join (join (RES P) d) ''ic_launcher_round.png'')
              = Some (Picture (rounded L (squared src) s))
          \<and> width (rounded L (squared src) s) = s \<and> height (rounded L (squared src) s) = s)
     \<and> distinct (outputs (RES P) DENSITIES) \<and> length (outputs (RES P) DENSITIES) = 10
     \<and> distinct (map (\<lambda>(d, s). join (RES P) d) DENSITIES) \<and> length DENSITIES = 5
     \<and> (\<exists>rest. stdout w' =
           [opening_line P, cropped_line (width (squared src)) (height (squared src))]
           @ concat (map (wrote (RES P)) DENSITIES) @ rest)"
proof -
  from assms obtain src w4 where
    src: "files w (SRC P) = Some (Picture src)"
    and loop: "for_each (icon_step L (RES P) 1) DENSITIES (cropped P src w) = (Inr (), w4)"
    and fin: "finish (RES P) w4 = (Inr (), w')"
    by (rule script_done)
  have ref: "1 < length (images (cropped P src w))" by (simp add: cropped_fields)
  note post = loop_done [OF sizes_positive ref loop table_distinct,
      unfolded cropped_fields, simplified]
  note f = finish_done [OF fin]
  have entries: "\<forall>(d, s) \<in> set DENSITIES.
          join (RES P) d \<in> dirs w'
          \<and> files w' (join (join (RES P) d) ''ic_launcher.png'')
              = Some (Picture (resized L (squared src) s))
          \<and> width (resized L (squared src) s) = s \<and> height (resized L (squared src) s) = s
          \<and> files w' (join (join (RES P) d) ''ic_launcher_round.png'')
              = Some (Picture (rounded L (squared src) s))
          \<and> width (rounded L (squared src) s) = s \<and> height (rounded L (squared src) s) = s"
  proof (clarify, intro conjI)
    fix d s assume ds: "(d, s) \<in> set DENSITIES"
    then have "join (RES P) d \<in> made_dirs (RES P) DENSITIES"
      by (auto simp: made_dirs_def)
    with post f(1) show "join (RES P) d \<in> dirs w'" by simp
    have "icon_path (RES P) d \<in> set (outputs (RES P) DENSITIES)"
      "round_path (RES P) d \<in> set (outputs (RES P) DENSITIES)"
      using ds by (auto simp: outputs_def)
    with xml_not_output [of P] have ne: "icon_path (RES P) d \<noteq> xml_path (RES P)"
      "round_path (RES P) d \<noteq> xml_path (RES P)" by auto
    from post ds have "files w4 (icon_path (RES P) d) = Some (Picture (resized L (squared src) s))"
      "files w4 (round_path (RES P) d) = Some (Picture (rounded L (squared src) s))"
      by auto
    with ne show "files w' (join (join (RES P) d) ''ic_launcher.png'')
              = Some (Picture (resized L (squared src) s))"
      "files w' (join (join (RES P) d) ''ic_launcher_round.png'')
              = Some (Picture (rounded L (squared src) s))"
      by (simp_all add: f(4) icon_path_def round_path_def)
  qed (simp_all add: width_resized height_resized width_rounded height_rounded)
  have count: "length (outputs (RES P) DENSITIES) = 10"
    unfolding table_outputs by simp
  have leaves: "distinct (map (\<lambda>(d, s). join (RES P) d) DENSITIES) \<and> length DENSITIES = 5"
    by (simp add: DENSITIES_def)
  from f(6) post have out: "\<exists>rest. stdout w' =
           [opening_line P, cropped_line (width (squared src)) (height (squared src))]
           @ concat (map (wrote (RES P)) DENSITIES) @ rest"
    by auto
  from src entries count leaves out table_distinct [of P] show ?thesis
    by (simp add: width_squared height_squared)
qed

lemma dirname_child:
  assumes "a \<noteq> []" and "last a \<noteq> CHR ''/''" and "CHR ''/'' \<notin> set b"
  shows "dirname (a @ CHR ''/'' # b) = a"
proof -
  have "dropWhile (\<lambda>c. c \<noteq> CHR ''/'') (rev b @ (CHR ''/'' # rev a))
      = dropWhile (\<lambda>c. c \<noteq> CHR ''/'') (CHR ''/'' # rev a)"
    using assms(3) by (intro dropWhile_append2) auto
  then have 1: "dropWhile (\<lambda>c. c \<noteq> CHR ''/'') (rev (a @ CHR ''/'' # b)) = CHR ''/'' # rev a"
    by simp
  obtain x xs where ra: "rev a = x # xs" using assms(1) by (cases "rev a") auto
  then have "x = last a" using assms(1) by (metis last_rev list.sel(1) rev_rev_ident hd_rev)
  with assms(2) have x: "x \<noteq> CHR ''/''" by simp
  have "last a \<in> set a" using assms(1) by simp
  with assms(2) have 2: "\<exists>c \<in> set (a @ ''/''). c \<noteq> CHR ''/''" by auto
  have 3: "rstrip_slash (a @ ''/'') = a"
    using x ra by (simp add: rstrip_slash_def)
  show ?thesis
    unfolding dirname_def 1 using 2 3 by (simp add: Let_def)
qed


lemma dirname_in_RES:
  assumes "d \<noteq> []" and "CHR ''/'' \<notin> set d" and "CHR ''/'' \<notin> set name" and "name \<noteq> []"
  shows "dirname (join (join (RES P) d) name) = join (RES P) d"
proof -
  from assms have hd: "hd d \<noteq> CHR ''/''" by (cases d) auto
  from assms have ld: "last d \<noteq> CHR ''/''" by (metis last_in_set)
  from assms have hn: "hd name \<noteq> CHR ''/''" by (cases name) auto
  have j: "join (RES P) d = RES P @ CHR ''/'' # d" using hd by simp
  have jj: "join (join (RES P) d) name = (RES P @ CHR ''/'' # d) @ CHR ''/'' # name"
    unfolding j using hn ld assms(1) by (simp add: join_def)
  show ?thesis
    unfolding jj unfolding j using ld assms(1,3) by (intro dirname_child) simp_all
qed



lemma table_names: "\<forall>(d, s) \<in> set DENSITIES. d \<noteq> [] \<and> CHR ''/'' \<notin> set d"
  by (simp add: DENSITIES_def)

lemma table_parents:
  "\<forall>(d, s) \<in> set DENSITIES.
     dirname (icon_path (RES P) d) = join (RES P) d
     \<and> dirname (round_path (RES P) d) = join (RES P) d"
proof (clarify, intro conjI)
  fix d s assume "(d, s) \<in> set DENSITIES"
  with table_names have d: "d \<noteq> []" "CHR ''/'' \<notin> set d" by auto
  show "dirname (icon_path (RES P) d) = join (RES P) d"
    unfolding icon_path_def by (rule dirname_in_RES [OF d]) simp_all
  show "dirname (round_path (RES P) d) = join (RES P) d"
    unfolding round_path_def by (rule dirname_in_RES [OF d]) simp_all
qed


lemma mkdirs_succeeds:
  "\<forall>p \<in> set ps. p \<notin> dom (files w) \<and> p \<notin> denied w \<Longrightarrow>
     mkdirs ps w = (Inr (), w\<lparr>dirs := dirs w \<union> set ps\<rparr>)"
proof (induction ps arbitrary: w)
  case Nil
  then show ?case by simp
next
  case (Cons p ps)
  show ?case
  proof (cases "p \<in> dirs w")
    case True
    with Cons show ?thesis by (simp add: insert_absorb)
  next
    case False
    from Cons.prems have "\<forall>q \<in> set ps. q \<notin> dom (files (w\<lparr>dirs := insert p (dirs w)\<rparr>))
        \<and> q \<notin> denied (w\<lparr>dirs := insert p (dirs w)\<rparr>)" by simp
    from Cons.IH [OF this] False Cons.prems show ?thesis by simp
  qed
qed

lemma loop_succeeds:
  assumes "\<forall>(d, s) \<in> set ds. 0 < s" and "src < length (images w)"
    and "\<forall>q \<in> made_dirs res ds. q \<notin> dom (files w) \<and> q \<notin> denied w"
    and "\<forall>p \<in> set (outputs res ds). p \<notin> dirs w \<and> p \<notin> denied w"
    and "\<forall>p \<in> set (outputs res ds). p \<notin> made_dirs res ds"
    and "\<forall>(d, s) \<in> set ds. dirname (icon_path res d) = join res d
           \<and> dirname (round_path res d) = join res d"
  shows "\<exists>w'. for_each (icon_step L res src) ds w = (Inr (), w')"
  using assms
proof (induction ds arbitrary: w)
  case Nil
  then show ?case by (simp add: ret_def)
next
  case (Cons x ds)
  obtain d s where x: "x = (d, s)" by (cases x)
  let ?c = "images w ! src"
  let ?icon = "icon_path res d"
  let ?round = "round_path res d"
  let ?ps = "ancestors (join res d) @ [join res d]"
  define w0 where "w0 = w\<lparr>dirs := dirs w \<union> set ?ps\<rparr>"
  define w1 where "w1 = w0\<lparr>images := images w @ [resized L ?c s, ?c, resized L ?c s, rounded L ?c s],
                masks := masks w @ [disc_mask L s],
                files := (files w)(?icon \<mapsto> Picture (resized L ?c s),
                   ?round \<mapsto> Picture (rounded L ?c s)),
                stdout := stdout w @ wrote res (d, s)\<rparr>"
  have f0: "dirs w0 = dirs w \<union> set ?ps" "denied w0 = denied w"
    by (simp_all add: w0_def)
  have f1: "dirs w1 = dirs w \<union> set ?ps" "denied w1 = denied w"
    "files w1 = (files w)(?icon \<mapsto> Picture (resized L ?c s),
                   ?round \<mapsto> Picture (rounded L ?c s))"
    "length (images w1) = length (images w) + 4"
    by (simp_all add: w1_def w0_def)
  from Cons.prems(1) x have s: "0 < s" by simp
  have sub: "set ?ps \<subseteq> made_dirs res (x # ds)" unfolding x made_dirs_Cons by blast
  have outs: "?icon \<in> set (outputs res (x # ds))" "?round \<in> set (outputs res (x # ds))"
    unfolding x outputs_Cons by simp_all
  have mk: "makedirs (join res d) w = (Inr (), w0)"
    unfolding makedirs_def w0_def using Cons.prems(3) sub by (intro mkdirs_succeeds) blast
  have par: "dirname ?icon = join res d" "dirname ?round = join res d"
    using Cons.prems(6) x by auto
  have si: "save_error ?icon w0 = None"
    using Cons.prems(4,5) outs(1) sub par(1) by (auto simp: save_error_def f0)
  have sr: "save_error ?round w0 = None"
    using Cons.prems(4,5) outs(2) sub par(2) by (auto simp: save_error_def f0)
  have step: "icon_step L res src (d, s) w = (Inr (), w1)"
    unfolding icon_step_run [OF s Cons.prems(2)] by (simp add: mk si sr w1_def)
  have src1: "src < length (images w1)" using Cons.prems(2) by (simp add: f1)
  have a3: "\<forall>q \<in> made_dirs res ds. q \<notin> dom (files w1) \<and> q \<notin> denied w1"
    using Cons.prems(3,5) outs unfolding x made_dirs_Cons f1 by auto
  have a4: "\<forall>p \<in> set (outputs res ds). p \<notin> dirs w1 \<and> p \<notin> denied w1"
    using Cons.prems(4,5) unfolding x made_dirs_Cons outputs_Cons f1 by auto
  have a5: "\<forall>p \<in> set (outputs res ds). p \<notin> made_dirs res ds"
    using Cons.prems(5) unfolding x made_dirs_Cons outputs_Cons by auto
  have a1: "\<forall>(d, s) \<in> set ds. 0 < s" and a6: "\<forall>(d, s) \<in> set ds.
      dirname (icon_path res d) = join res d \<and> dirname (round_path res d) = join res d"
    using Cons.prems(1,6) by simp_all
  from Cons.IH [OF a1 src1 a3 a4 a5 a6] obtain w' where
    "for_each (icon_step L res src) ds w1 = (Inr (), w')" by blast
  with step show ?case unfolding x by (simp add: and_then_def)
qed


lemma script_succeeds:
  assumes "files w (SRC P) = Some (Picture src)"
    and "0 \<le> width src" and "0 \<le> height src"
    and "SRC P \<notin> dirs w" and "SRC P \<notin> denied w"
    and "\<forall>q \<in> made_dirs (RES P) DENSITIES. q \<notin> dom (files w) \<and> q \<notin> denied w"
    and "\<forall>p \<in> set (outputs (RES P) DENSITIES). p \<notin> dirs w \<and> p \<notin> denied w"
    and "xml_path (RES P) \<notin> dirs w" and "xml_path (RES P) \<notin> denied w"
  shows "\<exists>w'. script L P w = (Inr (), w')"
proof -
  let ?u = "cropped P src w"
  have ref: "1 < length (images ?u)" by (simp add: cropped_fields)
  have "\<exists>w4. for_each (icon_step L (RES P) 1) DENSITIES ?u = (Inr (), w4)"
    using assms(6,7) outputs_not_dirs [of _ P]
    by (intro loop_succeeds [OF sizes_positive ref _ _ _ table_parents])
      (auto simp: cropped_fields)
  then obtain w4 where loop: "for_each (icon_step L (RES P) 1) DENSITIES ?u = (Inr (), w4)"
    by blast
  note post = loop_done [OF sizes_positive ref loop table_distinct, unfolded cropped_fields]
  note eff = loop_effect [OF sizes_positive ref loop, unfolded effect_def cropped_fields]
  have "xml_path (RES P) \<notin> dirs w4" using post assms(8) xml_not_dir [of P] by auto
  moreover have "xml_path (RES P) \<notin> denied w4" using eff assms(9) by auto
  ultimately have "\<exists>w'. finish (RES P) w4 = (Inr (), w')"
    by (auto simp: finish_def Let_def)
  with loop assms(1-5) show ?thesis
    unfolding script_run by auto
qed

lemma script_on_new_disk:
  assumes "fs (SRC P) = Some (Picture src)" and "0 \<le> width src" and "0 \<le> height src"
    and "dom fs \<subseteq> {SRC P, xml_path (RES P)}"
  shows "\<exists>w'. script L P (disk fs) = (Inr (), w')"
proof (rule script_succeeds)
  show "files (disk fs) (SRC P) = Some (Picture src)" using assms(1) by (simp add: disk_def)
  show "\<forall>q \<in> made_dirs (RES P) DENSITIES. q \<notin> dom (files (disk fs)) \<and> q \<notin> denied (disk fs)"
    using assms(4) SRC_not_dir [of P] xml_not_dir [of P] by (auto simp: disk_def)
qed (use assms in \<open>simp_all add: disk_def\<close>)

theorem full_run_writes_icons_witness:
  "\<exists>w'. script example_imaging termux photo_disk = (Inr (), w')
     \<and> width (squared (gradient 1000 600)) = 600 \<and> height (squared (gradient 1000 600)) = 600
     \<and> files w' (join (join (RES termux) ''mipmap-mdpi'') ''ic_launcher.png'')
          = Some (Picture (resized example_imaging (squared (gradient 1000 600)) 48))
     \<and> width (resized example_imaging (squared (gradient 1000 600)) 48) = 48
     \<and> files w' (join (join (RES termux) ''mipmap-xxxhdpi'') ''ic_launcher_round.png'')
          = Some (Picture (rounded example_imaging (squared (gradient 1000 600)) 192))
     \<and> height (rounded example_imaging (squared (gradient 1000 600)) 192) = 192
     \<and> length (outputs (RES termux) DENSITIES) = 10"
proof -
  have src: "files photo_disk (SRC termux) = Some (Picture (gradient 1000 600))"
    by (simp add: photo_disk_def disk_def)
  obtain w' where run: "script example_imaging termux photo_disk = (Inr (), w')"
    unfolding photo_disk_def
    using script_on_new_disk [of "[SRC termux \<mapsto> Picture (gradient 1000 600)]" termux
        "gradient 1000 600" example_imaging]
    by (auto simp: gradient_def)
  from full_run_writes_icons [OF run] src
  have all: "\<forall>(d, s) \<in> set DENSITIES.
          files w' (join (join (RES termux) d) ''ic_launcher.png'')
              = Some (Picture (resized example_imaging (squared (gradient 1000 600)) s))
          \<and> files w' (join (join (RES termux) d) ''ic_launcher_round.png'')
              = Some (Picture (rounded example_imaging (squared (gradient 1000 600)) s))"
    and n: "length (outputs (RES termux) DENSITIES) = 10"
    by auto
  have "(''mipmap-mdpi'', 48) \<in> set DENSITIES" "(''mipmap-xxxhdpi'', 192) \<in> set DENSITIES"
    by (simp_all add: DENSITIES_def)
  with all have "files w' (join (join (RES termux) ''mipmap-mdpi'') ''ic_launcher.png'')
          = Some (Picture (resized example_imaging (squared (gradient 1000 600)) 48))"
    "files w' (join (join (RES termux) ''mipmap-xxxhdpi'') ''ic_launcher_round.png'')
          = Some (Picture (rounded example_imaging (squared (gradient 1000 600)) 192))"
    by blast+
  with run n show ?thesis
    by (auto simp: width_squared height_squared width_resized height_rounded gradient_def)
qed
























lemma loop_again:
  assumes "\<forall>(d, s) \<in> set ds. 0 < s" and "src < length (images u)"
    and "made_dirs res ds \<subseteq> dirs u"
    and "\<forall>p \<in> set (outputs res ds). save_error p u = None"
    and "\<forall>(d, s) \<in> set ds.
           files u (icon_path res d) = Some (Picture (resized L (images u ! src) s))
           \<and> files u (round_path res d) = Some (Picture (rounded L (images u ! src) s))"
  shows "\<exists>u'. for_each (icon_step L res src) ds u = (Inr (), u')
           \<and> files u' = files u \<and> dirs u' = dirs u \<and> denied u' = denied u"
  using assms
proof (induction ds arbitrary: u)
  case Nil
  then show ?case by (simp add: ret_def)
next
  case (Cons x ds)
  obtain d s where x: "x = (d, s)" by (cases x)
  let ?c = "images u ! src"
  let ?icon = "icon_path res d"
  let ?round = "round_path res d"
  let ?ps = "ancestors (join res d) @ [join res d]"
  define u1 where "u1 = u\<lparr>images := images u @ [resized L ?c s, ?c, resized L ?c s, rounded L ?c s],
                masks := masks u @ [disc_mask L s],
                files := (files u)(?icon \<mapsto> Picture (resized L ?c s),
                   ?round \<mapsto> Picture (rounded L ?c s)),
                stdout := stdout u @ wrote res (d, s)\<rparr>"
  from Cons.prems(1) x have s: "0 < s" by simp
  have "set ?ps \<subseteq> dirs u" using Cons.prems(3) unfolding x made_dirs_Cons by blast
  then have mk: "makedirs (join res d) u = (Inr (), u)"
    unfolding makedirs_def by (rule mkdirs_present)
  have si: "save_error ?icon u = None" and sr: "save_error ?round u = None"
    using Cons.prems(4) unfolding x outputs_Cons by simp_all
  have step: "icon_step L res src (d, s) u = (Inr (), u1)"
    unfolding icon_step_run [OF s Cons.prems(2)] by (simp add: mk si sr u1_def)
  have held: "files u ?icon = Some (Picture (resized L ?c s))"
    "files u ?round = Some (Picture (rounded L ?c s))"
    using Cons.prems(5) x by auto
  have f1: "files u1 = files u"
    using held by (auto simp: u1_def fun_eq_iff)
  have o1: "dirs u1 = dirs u" "denied u1 = denied u" "images u1 ! src = ?c"
    "src < length (images u1)"
    using Cons.prems(2) by (simp_all add: u1_def nth_append)
  have se: "save_error p u1 = save_error p u" for p
    by (simp add: save_error_def o1)
  have a1: "\<forall>(d, s) \<in> set ds. 0 < s" using Cons.prems(1) by simp
  have a3: "made_dirs res ds \<subseteq> dirs u1"
    using Cons.prems(3) unfolding x made_dirs_Cons o1 by blast
  have a4: "\<forall>p \<in> set (outputs res ds). save_error p u1 = None"
    using Cons.prems(4) unfolding x outputs_Cons se by simp
  have a5: "\<forall>(d, s) \<in> set ds.
           files u1 (icon_path res d) = Some (Picture (resized L (images u1 ! src) s))
           \<and> files u1 (round_path res d) = Some (Picture (rounded L (images u1 ! src) s))"
    using Cons.prems(5) unfolding f1 o1 by simp
  from Cons.IH [OF a1 o1(4) a3 a4 a5] obtain u' where
    "for_each (icon_step L res src) ds u1 = (Inr (), u')"
    "files u' = files u1" "dirs u' = dirs u1" "denied u' = denied u1" by blast
  with step f1 o1 show ?case unfolding x by (simp add: and_then_def)
qed


text \<open>
  Claim C7. When a run of the script has completed, a second run on the file system it
  left also completes, without any error, and leaves the same files (the same paths with
  the same contents) and the same directories: the outputs are overwritten in place.
\<close>

theorem second_run_same_tree:
  assumes "script L P w = (Inr (), w1)"
  shows "\<exists>w2. script L P w1 = (Inr (), w2) \<and> files w2 = files w1 \<and> dirs w2 = dirs w1"
proof -
  let ?R = "RES P"
  let ?outs = "outputs ?R DENSITIES"
  let ?made = "made_dirs ?R DENSITIES"
  let ?xml = "xml_path ?R"
  from assms obtain src w4 where
    src: "files w (SRC P) = Some (Picture src)" "SRC P \<notin> dirs w" "SRC P \<notin> denied w"
      "\<not> min (width src) (height src) < 0"
    and loop: "for_each (icon_step L ?R 1) DENSITIES (cropped P src w) = (Inr (), w4)"
    and fin: "finish ?R w4 = (Inr (), w1)"
    by (rule script_done)
  have ref: "1 < length (images (cropped P src w))" by (simp add: cropped_fields)
  note post = loop_done [OF sizes_positive ref loop table_distinct,
      unfolded cropped_fields, simplified]
  note eff = loop_effect [OF sizes_positive ref loop, unfolded effect_def cropped_fields]
  note fd = finish_done [OF fin]
  have d1: "dirs w1 = dirs w \<union> ?made" using post fd(1) by simp
  have n1: "denied w1 = denied w" using eff fd(2) by simp
  have f4: "\<forall>p. p \<notin> set ?outs \<longrightarrow> files w4 p = files w p"
    using effect_done_files [OF loop_effect [OF sizes_positive ref loop]]
    by (simp add: cropped_fields)
  have f1: "\<forall>p. p \<noteq> ?xml \<longrightarrow> files w1 p = files w4 p" and x1: "files w1 ?xml = None"
    using fd(4) by simp_all
  have s1: "files w1 (SRC P) = Some (Picture src)"
    using f1 f4 src(1) SRC_not_xml [of P] SRC_not_output [of P] by simp
  have s2: "SRC P \<notin> dirs w1" using d1 src(2) SRC_not_dir [of P] by simp
  have s3: "SRC P \<notin> denied w1" using n1 src(3) by simp
  let ?u = "cropped P src w1"
  have ref1: "1 < length (images ?u)" by (simp add: cropped_fields)
  have a3: "?made \<subseteq> dirs ?u" using d1 by (simp add: cropped_fields)
  have a4: "\<forall>p \<in> set ?outs. save_error p ?u = None"
  proof
    fix p assume p: "p \<in> set ?outs"
    with post have "p \<notin> denied w" "dirname p \<in> dirs w4" "p \<in> dirs w4 \<longrightarrow> p \<in> ?made"
      by blast+
    with outputs_not_dirs [OF p] fd(1) n1 show "save_error p ?u = None"
      by (simp add: save_error_def cropped_fields)
  qed
  have a5: "\<forall>(d, s) \<in> set DENSITIES.
           files ?u (icon_path ?R d) = Some (Picture (resized L (images ?u ! 1) s))
           \<and> files ?u (round_path ?R d) = Some (Picture (rounded L (images ?u ! 1) s))"
  proof (clarify, intro conjI)
    fix d s assume ds: "(d, s) \<in> set DENSITIES"
    then have "icon_path ?R d \<in> set ?outs" "round_path ?R d \<in> set ?outs"
      by (auto simp: outputs_def)
    with xml_not_output [of P] have "icon_path ?R d \<noteq> ?xml" "round_path ?R d \<noteq> ?xml"
      by auto
    with f1 post ds
    show "files ?u (icon_path ?R d) = Some (Picture (resized L (images ?u ! 1) s))"
      "files ?u (round_path ?R d) = Some (Picture (rounded L (images ?u ! 1) s))"
      by (auto simp: cropped_fields)
  qed
  from loop_again [OF sizes_positive ref1 a3 a4 a5] obtain u' where
    again: "for_each (icon_step L ?R 1) DENSITIES ?u = (Inr (), u')"
    and same: "files u' = files w1" "dirs u' = dirs w1" "denied u' = denied w1"
    by (auto simp: cropped_fields)
  have "?xml \<notin> dirs u'" using same(2) fd(1,5) by simp
  moreover have "?xml \<notin> dom (files u')" using same(1) x1 by (simp add: dom_def)
  ultimately have fin2: "finish ?R u' = (Inr (), u'\<lparr>stdout := stdout u' @
               [CHR 0x0A # ''Done! All icons generated.'',
                ''Remember: manifest now uses @mipmap/ic_launcher'']\<rparr>)"
    by (simp add: finish_def Let_def)
  have "script L P w1 = (Inr (), u'\<lparr>stdout := stdout u' @
               [CHR 0x0A # ''Done! All icons generated.'',
                ''Remember: manifest now uses @mipmap/ic_launcher'']\<rparr>)"
    unfolding script_run using s1 s2 s3 src(4) again fin2 by simp
  with same show ?thesis by simp
qed

theorem second_run_same_tree_witness:
  "\<exists>w1 w2. script example_imaging termux photo_disk = (Inr (), w1)
     \<and> script example_imaging termux w1 = (Inr (), w2)
     \<and> files w2 = files w1 \<and> dirs w2 = dirs w1"
proof -
  obtain w1 where run: "script example_imaging termux photo_disk = (Inr (), w1)"
    unfolding photo_disk_def
    using script_on_new_disk [of "[SRC termux \<mapsto> Picture (gradient 1000 600)]" termux
        "gradient 1000 600" example_imaging]
    by (auto simp: gradient_def)
  from second_run_same_tree [OF run] run show ?thesis by blast
qed


lemma make_round_frame:
  assumes "make_round L img sz w = (r, w')"
  shows "(\<forall>i < length (images w). images w' ! i = images w ! i)
     \<and> (\<forall>j < length (masks w). masks w' ! j = masks w ! j)
     \<and> files w' = files w \<and> dirs w' = dirs w \<and> denied w' = denied w \<and> stdout w' = stdout w
     \<and> (\<forall>n. r = Inr n \<longrightarrow> length (images w) \<le> n \<and> n < length (images w'))"
proof (cases "0 < sz")
  case True
  from make_round_run [OF True, of L img w] assms show ?thesis
    by (auto simp: nth_append)
next
  case False
  show ?thesis
  proof (cases "resize L (images w ! img) (sz, sz)")
    case (Inl e)
    with assms have "w' = w" "r = Inl e"
      by (simp_all add: make_round_def and_then_def img_resize_def store_def)
    then show ?thesis by simp
  next
    case (Inr im)
    define w1 where "w1 = w\<lparr>images := images w @ [im]\<rparr>"
    have s1: "img_resize L img (sz, sz) w = (Inr (length (images w)), w1)"
      using Inr by (simp add: img_resize_def store_def w1_def)
    show ?thesis
    proof (cases "sz < 0")
      case True
      then have "mask_new (sz, sz) 0 w1 = (Inl ValueError, w1)"
        by (simp add: mask_new_def store_mask_def new_image_def)
      with s1 assms have "w' = w1" "r = Inl ValueError"
        by (simp_all add: make_round_def and_then_def)
      then show ?thesis by (simp add: w1_def nth_append)
    next
      case nn: False
      with False have z: "sz = 0" by simp
      define blank :: "int image" where "blank = \<lparr>width = 0, height = 0, pix = (\<lambda>x y. 0)\<rparr>"
      define canvas :: "rgba image" where
        "canvas = \<lparr>width = 0, height = 0, pix = (\<lambda>x y. (0, 0, 0, 0))\<rparr>"
      define w2 where "w2 = w1\<lparr>masks := masks w @ [blank]\<rparr>"
      define w3 where "w3 = w1\<lparr>masks := masks w @ [ellipse L blank (0, 0, 0, 0) 255]\<rparr>"
      define w4 where "w4 = w3\<lparr>images := images w @ [im, canvas]\<rparr>"
      have s2: "mask_new (sz, sz) 0 w1 = (Inr (length (masks w)), w2)"
        by (simp add: z mask_new_def store_mask_def new_image_def w1_def w2_def blank_def)
      have s3: "draw_ellipse L (length (masks w)) (0, 0, sz, sz) 255 w2 = (Inr (), w3)"
        by (simp add: z draw_ellipse_def w2_def w3_def w1_def)
      have s4: "img_new (sz, sz) (0, 0, 0, 0) w3 = (Inr (Suc (length (images w))), w4)"
        by (simp add: z img_new_def store_def new_image_def w3_def w1_def w4_def canvas_def)
      obtain r5 w5 where s5: "img_paste L (Suc (length (images w))) (length (images w)) (0, 0)
          (length (masks w)) w4 = (r5, w5)" by fastforce
      then have w5: "w5 = w4 \<or> (\<exists>x. w5 = w4\<lparr>images := images w @ [im, x]\<rparr>)"
        by (auto simp: img_paste_def w4_def list_update_append split: sum.splits)
      have res: "r = (case r5 of Inl e \<Rightarrow> Inl e | Inr u \<Rightarrow> Inr (Suc (length (images w))))"
        "w' = w5"
        using assms s1 s2 s3 s4 s5
        by (simp_all add: make_round_def and_then_def ret_def split: sum.splits)
      from w5 show ?thesis
      proof
        assume "w5 = w4"
        with res show ?thesis
          by (auto simp: w4_def w3_def w1_def nth_append split: sum.splits)
      next
        assume "\<exists>x. w5 = w4\<lparr>images := images w @ [im, x]\<rparr>"
        then obtain x where "w5 = w4\<lparr>images := images w @ [im, x]\<rparr>" by blast
        with res show ?thesis
          by (auto simp: w4_def w3_def w1_def nth_append split: sum.splits)
      qed
    qed
  qed
qed


text \<open>
  Claim C8. \<^verbatim>\<open>make_round\<close> leaves every image object that existed before the call as
  it was, its input among them, and what it returns is an object that did not exist
  before, whatever the size and whether or not it raises. The loop of \<^verbatim>\<open>main\<close> over
  the table likewise leaves every existing object as it was, the cropped source among
  them; and when it completes, the two files of every entry hold what \<^verbatim>\<open>resize\<close> and
  \<^verbatim>\<open>make_round\<close> return on the source object as it was before the loop.
\<close>

theorem source_image_read_only:
  assumes "src < length (images w)"
  shows "(\<forall>sz r w'. make_round L src sz w = (r, w') \<longrightarrow>
            (\<forall>i < length (images w). images w' ! i = images w ! i)
            \<and> (\<forall>n. r = Inr n \<longrightarrow> length (images w) \<le> n \<and> n < length (images w')))
     \<and> (\<forall>r w'. for_each (icon_step L (RES P) src) DENSITIES w = (r, w') \<longrightarrow>
            (\<forall>i < length (images w). images w' ! i = images w ! i)
            \<and> (r = Inr () \<longrightarrow>
                 (\<forall>(d, s) \<in> set DENSITIES.
                    (\<exists>a. resize L (images w ! src) (s, s) = Inr a
                        \<and> files w' (icon_path (RES P) d) = Some (Picture a))
                    \<and> (\<exists>n h. make_round L src s w = (Inr n, h)
                        \<and> files w' (round_path (RES P) d) = Some (Picture (images h ! n))))))"
proof -
  have A: "\<forall>sz r w'. make_round L src sz w = (r, w') \<longrightarrow>
            (\<forall>i < length (images w). images w' ! i = images w ! i)
            \<and> (\<forall>n. r = Inr n \<longrightarrow> length (images w) \<le> n \<and> n < length (images w'))"
  proof (intro allI impI)
    fix sz r w' assume "make_round L src sz w = (r, w')"
    from make_round_frame [OF this]
    show "(\<forall>i < length (images w). images w' ! i = images w ! i)
        \<and> (\<forall>n. r = Inr n \<longrightarrow> length (images w) \<le> n \<and> n < length (images w'))"
      by blast
  qed
  have B: "\<forall>r w'. for_each (icon_step L (RES P) src) DENSITIES w = (r, w') \<longrightarrow>
            (\<forall>i < length (images w). images w' ! i = images w ! i)
            \<and> (r = Inr () \<longrightarrow>
                 (\<forall>(d, s) \<in> set DENSITIES.
                    (\<exists>a. resize L (images w ! src) (s, s) = Inr a
                        \<and> files w' (icon_path (RES P) d) = Some (Picture a))
                    \<and> (\<exists>n h. make_round L src s w = (Inr n, h)
                        \<and> files w' (round_path (RES P) d) = Some (Picture (images h ! n)))))"
  proof (intro allI impI)
    fix r w' assume loop: "for_each (icon_step L (RES P) src) DENSITIES w = (r, w')"
    from loop_effect [OF sizes_positive assms loop] obtain xs where
      "images w' = images w @ xs" unfolding effect_def by blast
    then have kept: "\<forall>i < length (images w). images w' ! i = images w ! i"
      by (simp add: nth_append)
    have outs: "\<forall>(d, s) \<in> set DENSITIES.
            (\<exists>a. resize L (images w ! src) (s, s) = Inr a
                \<and> files w' (icon_path (RES P) d) = Some (Picture a))
            \<and> (\<exists>n h. make_round L src s w = (Inr n, h)
                \<and> files w' (round_path (RES P) d) = Some (Picture (images h ! n)))"
      if ok: "r = Inr ()"
    proof (clarify, intro conjI)
      note post = loop_done [OF sizes_positive assms loop [unfolded ok] table_distinct]
      fix d s assume ds: "(d, s) \<in> set DENSITIES"
      with sizes_positive have s: "0 < s" by auto
      from post ds have f: "files w' (icon_path (RES P) d)
          = Some (Picture (resized L (images w ! src) s))"
        "files w' (round_path (RES P) d) = Some (Picture (rounded L (images w ! src) s))"
        by auto
      from f(1) resize_resized [OF s, of L "images w ! src"]
      show "\<exists>a. resize L (images w ! src) (s, s) = Inr a
          \<and> files w' (icon_path (RES P) d) = Some (Picture a)" by blast
      let ?h = "w\<lparr>images := images w @ [resized L (images w ! src) s,
                   rounded L (images w ! src) s],
                 masks := masks w @ [disc_mask L s]\<rparr>"
      have "images ?h ! Suc (length (images w)) = rounded L (images w ! src) s"
        by (simp add: nth_append)
      with f(2) make_round_run [OF s, of L src w]
      show "\<exists>n h. make_round L src s w = (Inr n, h)
          \<and> files w' (round_path (RES P) d) = Some (Picture (images h ! n))"
        by metis
    qed
    from kept outs
    show "(\<forall>i < length (images w). images w' ! i = images w ! i)
            \<and> (r = Inr () \<longrightarrow>
                 (\<forall>(d, s) \<in> set DENSITIES.
                    (\<exists>a. resize L (images w ! src) (s, s) = Inr a
                        \<and> files w' (icon_path (RES P) d) = Some (Picture a))
                    \<and> (\<exists>n h. make_round L src s w = (Inr n, h)
                        \<and> files w' (round_path (RES P) d) = Some (Picture (images h ! n)))))"
      by blast
  qed
  show ?thesis by (rule conjI [OF A B])
qed

theorem source_image_read_only_witness:
  "0 < length (images (heap_of (gradient 8 8)))
   \<and> (\<exists>r w'. make_round example_imaging 0 4 (heap_of (gradient 8 8)) = (r, w')
         \<and> images w' ! 0 = gradient 8 8)
   \<and> (\<exists>w'. for_each (icon_step example_imaging (RES termux) 0) DENSITIES
               (heap_of (gradient 8 8)) = (Inr (), w')
         \<and> images w' ! 0 = gradient 8 8)"
proof -
  let ?w = "heap_of (gradient 8 8)"
  have ref: "0 < length (images ?w)" by (simp add: heap_of_def)
  note ro = source_image_read_only [OF ref, of example_imaging termux]
  obtain r w' where mr: "make_round example_imaging 0 4 ?w = (r, w')" by fastforce
  with ro ref have "images w' ! 0 = images ?w ! 0" by blast
  then have 1: "images w' ! 0 = gradient 8 8" by (simp add: heap_of_def)
  have "\<exists>w''. for_each (icon_step example_imaging (RES termux) 0) DENSITIES ?w = (Inr (), w'')"
    using outputs_not_dirs [of _ termux]
    by (intro loop_succeeds [OF sizes_positive ref _ _ _ table_parents])
      (auto simp: heap_of_def)
  then obtain w'' where
    loop: "for_each (icon_step example_imaging (RES termux) 0) DENSITIES ?w = (Inr (), w'')"
    by blast
  with ro ref have "images w'' ! 0 = images ?w ! 0" by blast
  then have 2: "images w'' ! 0 = gradient 8 8" by (simp add: heap_of_def)
  from ref mr 1 loop 2 show ?thesis by blast
qed





end
